theory Spec2Isabelle
  imports Main "HOL-Library.Word"
begin

unbundle bit_operations_syntax

section \<open>Machine types\<close>

type_synonym u8 = "8 word"
type_synonym u32 = "32 word"
type_synonym u64 = "64 word"

section \<open>Endian helpers (internal/endian.h)\<close>

text \<open>
  \<open>load_le64\<close> copies eight bytes into a \<open>uint64_t\<close> and, on a big-endian host, swaps
  them; either way the byte at the lowest address becomes the least significant byte.
  The pointer argument is the list of bytes starting at the address read.
\<close>

definition load_le64 :: "u8 list \<Rightarrow> u64" where
  "load_le64 src =
     ucast (src ! 0) OR push_bit 8 (ucast (src ! 1)) OR
     push_bit 16 (ucast (src ! 2)) OR push_bit 24 (ucast (src ! 3)) OR
     push_bit 32 (ucast (src ! 4)) OR push_bit 40 (ucast (src ! 5)) OR
     push_bit 48 (ucast (src ! 6)) OR push_bit 56 (ucast (src ! 7))"

text \<open>\<open>store_le64\<close> yields the eight bytes written at the destination, lowest address first.\<close>

definition store_le64 :: "u64 \<Rightarrow> u8 list" where
  "store_le64 v =
     [ucast v, ucast (drop_bit 8 v), ucast (drop_bit 16 v), ucast (drop_bit 24 v),
      ucast (drop_bit 32 v), ucast (drop_bit 40 v), ucast (drop_bit 48 v),
      ucast (drop_bit 56 v)]"

section \<open>Portable compression backend (backend/blake2b\_portable.cpp)\<close>

definition IV :: "u64 list" where
  "IV = [0x6A09E667F3BCC908, 0xBB67AE8584CAA73B,
         0x3C6EF372FE94F82B, 0xA54FF53A5F1D36F1,
         0x510E527FADE682D1, 0x9B05688C2B3E6C1F,
         0x1F83D9ABFB41BD6B, 0x5BE0CD19137E2179]"

text \<open>The source's \<open>SIGMA[12][16]\<close>; the name \<open>SIGMA\<close> is taken by HOL's syntax.\<close>

definition SIGMA_tbl :: "nat list list" where
  "SIGMA_tbl = [
    [0, 1, 2, 3, 4, 5, 6, 7, 8, 9, 10, 11, 12, 13, 14, 15],
    [14, 10, 4, 8, 9, 15, 13, 6, 1, 12, 0, 2, 11, 7, 5, 3],
    [11, 8, 12, 0, 5, 2, 15, 13, 10, 14, 3, 6, 7, 1, 9, 4],
    [7, 9, 3, 1, 13, 12, 11, 14, 2, 6, 5, 10, 4, 0, 15, 8],
    [9, 0, 5, 7, 2, 4, 10, 15, 14, 1, 11, 12, 6, 8, 3, 13],
    [2, 12, 6, 10, 0, 11, 8, 3, 4, 13, 7, 5, 15, 14, 1, 9],
    [12, 5, 1, 15, 14, 13, 4, 10, 0, 7, 6, 3, 9, 2, 8, 11],
    [13, 11, 7, 14, 12, 1, 3, 9, 5, 0, 15, 4, 8, 6, 2, 10],
    [6, 15, 14, 9, 11, 3, 0, 8, 12, 2, 13, 7, 1, 4, 10, 5],
    [10, 2, 8, 4, 7, 6, 1, 5, 15, 11, 9, 14, 3, 12, 13, 0],
    [0, 1, 2, 3, 4, 5, 6, 7, 8, 9, 10, 11, 12, 13, 14, 15],
    [14, 10, 4, 8, 9, 15, 13, 6, 1, 12, 0, 2, 11, 7, 5, 3]]"

definition rotr64 :: "u64 \<Rightarrow> nat \<Rightarrow> u64" where
  "rotr64 x n = drop_bit n x OR push_bit (64 - n) x"

text \<open>
  The macro \<open>G(r, i, a, b, c, d)\<close> is applied to four cells of \<open>v\<close>; here \<open>a b c d\<close> are
  the indices of those cells and the result is the updated array.
\<close>

definition G :: "nat \<Rightarrow> nat \<Rightarrow> nat \<Rightarrow> nat \<Rightarrow> nat \<Rightarrow> nat \<Rightarrow> u64 list \<Rightarrow> u64 list \<Rightarrow> u64 list" where
  "G r i a b c d m v =
    (let va = v ! a + v ! b + m ! (SIGMA_tbl ! r ! (2 * i + 0));
         vd = rotr64 (v ! d XOR va) 32;
         vc = v ! c + vd;
         vb = rotr64 (v ! b XOR vc) 24;
         va = va + vb + m ! (SIGMA_tbl ! r ! (2 * i + 1));
         vd = rotr64 (vd XOR va) 16;
         vc = vc + vd;
         vb = rotr64 (vb XOR vc) 63
     in v[a := va, b := vb, c := vc, d := vd])"

definition ROUND :: "nat \<Rightarrow> u64 list \<Rightarrow> u64 list \<Rightarrow> u64 list" where
  "ROUND r m v =
    (let v = G r 0 0 4 8 12 m v;
         v = G r 1 1 5 9 13 m v;
         v = G r 2 2 6 10 14 m v;
         v = G r 3 3 7 11 15 m v;
         v = G r 4 0 5 10 15 m v;
         v = G r 5 1 6 11 12 m v;
         v = G r 6 2 7 8 13 m v;
         v = G r 7 3 4 9 14 m v
     in v)"

text \<open>
  \<open>state\<close> is the array \<open>uint64_t state[8]\<close>, \<open>block\<close> the 128 bytes at the block pointer;
  the result is the array \<open>state\<close> as the function leaves it.
\<close>

definition blake2b_compress_portable ::
  "u64 list \<Rightarrow> u8 list \<Rightarrow> u64 \<Rightarrow> u64 \<Rightarrow> bool \<Rightarrow> u64 list" where
  "blake2b_compress_portable state block t0 t1 lst =
    (let m = map (\<lambda>i. load_le64 (drop (i * 8) block)) [0..<16];
         v = map (\<lambda>i. state ! i) [0..<8] @
             [IV ! 0, IV ! 1, IV ! 2, IV ! 3, IV ! 4 XOR t0, IV ! 5 XOR t1,
              (if lst then IV ! 6 XOR 0xFFFFFFFFFFFFFFFF else IV ! 6), IV ! 7];
         v = ROUND 0 m v; v = ROUND 1 m v; v = ROUND 2 m v; v = ROUND 3 m v;
         v = ROUND 4 m v; v = ROUND 5 m v; v = ROUND 6 m v; v = ROUND 7 m v;
         v = ROUND 8 m v; v = ROUND 9 m v; v = ROUND 10 m v; v = ROUND 11 m v
     in map (\<lambda>i. state ! i XOR (v ! i XOR v ! (i + 8))) [0..<8])"

section \<open>Memory helpers\<close>

text \<open>
  Pointers are modelled by what they point to: a byte region is a \<open>u8 list\<close>, a pointer
  that may be null is a \<open>u8 list option\<close> (\<open>None\<close> is the null pointer), and a length of
  type \<open>size_t\<close> is a \<open>nat\<close>. A caller passes a length that does not exceed the region it
  points to; the theorems below instantiate lengths with \<open>length\<close> of the region.

  A state is passed by value and returned: the state pointer itself is not null (for
  a null state pointer every function of the API returns \<open>-1\<close> at once), and an output
  buffer has room for the bytes the call writes.

  \<open>memcpy_at dst off src n\<close> is the array \<open>dst\<close> after \<open>memcpy(dst + off, src, n)\<close>, and
  \<open>memset0_at dst off n\<close> is \<open>dst\<close> after \<open>memset(dst + off, 0, n)\<close>.
\<close>

definition memcpy_at :: "u8 list \<Rightarrow> nat \<Rightarrow> u8 list \<Rightarrow> nat \<Rightarrow> u8 list" where
  "memcpy_at dst off src n = take off dst @ take n src @ drop (off + n) dst"

definition memset0_at :: "u8 list \<Rightarrow> nat \<Rightarrow> nat \<Rightarrow> u8 list" where
  "memset0_at dst off n = take off dst @ replicate n 0 @ drop (off + n) dst"

section \<open>Constant-time equality (secure\_zero.cpp)\<close>

text \<open>
  The loop \<open>for (i = 0; i < len; ++i) diff |= pa[i] ^ pb[i]\<close> as a fold over the indices,
  then the final test \<open>diff == 0 ? 1 : 0\<close>.
\<close>

definition tinyblake_constant_time_eq :: "u8 list \<Rightarrow> u8 list \<Rightarrow> nat \<Rightarrow> int" where
  "tinyblake_constant_time_eq pa pb len =
    (let diff = fold (\<lambda>i diff. diff OR (pa ! i XOR pb ! i)) [0..<len] (0::u8)
     in if diff = 0 then 1 else 0)"

section \<open>BLAKE2b state machine (blake2b.cpp)\<close>

text \<open>
  \<open>struct tinyblake_blake2b_state\<close>. The array \<open>t[2]\<close> is the pair of fields \<open>S_t0\<close>,
  \<open>S_t1\<close>; \<open>S_buflen\<close> is a \<open>size_t\<close> and \<open>S_outlen\<close> a \<open>uint8_t\<close>.
\<close>

record blake2b_state =
  S_h :: "u64 list"
  S_t0 :: u64
  S_t1 :: u64
  S_buf :: "u8 list"
  S_buflen :: nat
  S_outlen :: u8

text \<open>The state after \<open>memset(S, 0, sizeof(*S))\<close> or \<open>tinyblake_secure_zero\<close>.\<close>

definition zero_state :: blake2b_state where
  "zero_state = \<lparr>S_h = replicate 8 0, S_t0 = 0, S_t1 = 0, S_buf = replicate 128 0,
                 S_buflen = 0, S_outlen = 0\<rparr>"

text \<open>
  A local variable that the source declares without initialising it (a state or a byte
  array on the stack) starts with the contents below. The source writes such a local
  before reading it whenever the preceding call succeeded, and lemmas
  \<open>init_overwrites\<close> and \<open>hmac_init_overwrites\<close> show that the value chosen here does
  not reach any result.
\<close>

definition uninit_bytes :: "nat \<Rightarrow> u8 list" where
  "uninit_bytes n = replicate n 0xAA"

definition uninit_state :: blake2b_state where
  "uninit_state = \<lparr>S_h = replicate 8 0xAAAAAAAAAAAAAAAA, S_t0 = 0xAAAAAAAAAAAAAAAA,
                   S_t1 = 0xAAAAAAAAAAAAAAAA, S_buf = uninit_bytes 128,
                   S_buflen = 0xAAAAAAAAAAAAAAAA, S_outlen = 0xAA\<rparr>"

text \<open>
  The dispatcher \<open>get_compress\<close> returns the backend chosen for the machine. The model
  is the build in which it returns the portable backend (\<open>TINYBLAKE_FORCE_PORTABLE\<close>, or
  an architecture without a vector backend).
\<close>

definition get_compress :: "u64 list \<Rightarrow> u8 list \<Rightarrow> u64 \<Rightarrow> u64 \<Rightarrow> bool \<Rightarrow> u64 list" where
  "get_compress = blake2b_compress_portable"

definition build_default_param :: "u8 \<Rightarrow> u8 \<Rightarrow> u8 list" where
  "build_default_param outlen keylen =
    (let param = replicate 64 0;
         param = param[0 := outlen];
         param = param[1 := keylen];
         param = param[2 := 1];
         param = param[3 := 1]
     in param)"

definition init_from_param :: "blake2b_state \<Rightarrow> u8 list \<Rightarrow> int \<times> blake2b_state" where
  "init_from_param S param =
    (if param ! 0 = 0 \<or> param ! 0 > 64 then (- 1, S)
     else
       let S = zero_state;
           S = S\<lparr>S_outlen := param ! 0\<rparr>;
           S = S\<lparr>S_h := map (\<lambda>i. IV ! i XOR load_le64 (drop (i * 8) param)) [0..<8]\<rparr>
       in (0, S))"

definition compress_block :: "blake2b_state \<Rightarrow> u8 list \<Rightarrow> bool \<Rightarrow> blake2b_state" where
  "compress_block S block lst = S\<lparr>S_h := get_compress (S_h S) block (S_t0 S) (S_t1 S) lst\<rparr>"

text \<open>
  The statement pair \<open>t[0] += n; if (t[0] < n) t[1]++;\<close> that \<open>update\<close> (with \<open>n = 128\<close>)
  and \<open>final\<close> (with \<open>n = buflen\<close>) both contain.
\<close>

definition advance_counter :: "blake2b_state \<Rightarrow> u64 \<Rightarrow> blake2b_state" where
  "advance_counter S n =
    (let S = S\<lparr>S_t0 := S_t0 S + n\<rparr>
     in if S_t0 S < n then S\<lparr>S_t1 := S_t1 S + 1\<rparr> else S)"

definition tinyblake_blake2b_init :: "blake2b_state \<Rightarrow> nat \<Rightarrow> int \<times> blake2b_state" where
  "tinyblake_blake2b_init state outlen =
    (if outlen = 0 \<or> outlen > 64 then (- 1, state)
     else init_from_param state (build_default_param (of_nat outlen) 0))"

definition tinyblake_blake2b_init_param :: "blake2b_state \<Rightarrow> u8 list option \<Rightarrow> int \<times> blake2b_state" where
  "tinyblake_blake2b_init_param state param =
    (case param of None \<Rightarrow> (- 1, state) | Some p \<Rightarrow> init_from_param state p)"

text \<open>The loop \<open>while (inlen > 128)\<close> of \<open>update\<close>, on the state, \<open>pin\<close> and \<open>inlen\<close>.\<close>

function update_blocks :: "blake2b_state \<Rightarrow> u8 list \<Rightarrow> nat \<Rightarrow> blake2b_state \<times> u8 list \<times> nat" where
  "update_blocks S pin inlen =
    (if inlen > 128 then
       let S = advance_counter S 128;
           S = compress_block S pin False
       in update_blocks S (drop 128 pin) (inlen - 128)
     else (S, pin, inlen))"
  by pat_completeness auto
termination
  by (relation "measure (\<lambda>(S, pin, inlen). inlen)") auto

text \<open>The part of \<open>update\<close> after the buffer has been dealt with: the loop, then buffering.\<close>

definition update_rest :: "blake2b_state \<Rightarrow> u8 list \<Rightarrow> nat \<Rightarrow> blake2b_state" where
  "update_rest S pin inlen =
    (case update_blocks S pin inlen of (S, pin, inlen) \<Rightarrow>
       if inlen > 0 then S\<lparr>S_buf := memcpy_at (S_buf S) 0 pin inlen, S_buflen := inlen\<rparr>
       else S)"

definition tinyblake_blake2b_update ::
  "blake2b_state \<Rightarrow> u8 list option \<Rightarrow> nat \<Rightarrow> int \<times> blake2b_state" where
  "tinyblake_blake2b_update state inp inlen =
    (if S_buflen state > 128 then (- 1, state)
     else if inlen = 0 then (0, state)
     else case inp of
       None \<Rightarrow> (- 1, state)
     | Some pin \<Rightarrow>
         if S_buflen state > 0 then
           let left = 128 - S_buflen state in
           if inlen > left then
             let state = state\<lparr>S_buf := memcpy_at (S_buf state) (S_buflen state) pin left\<rparr>;
                 state = advance_counter state 128;
                 state = compress_block state (S_buf state) False;
                 state = state\<lparr>S_buflen := 0\<rparr>
             in (0, update_rest state (drop left pin) (inlen - left))
           else
             (0, state\<lparr>S_buf := memcpy_at (S_buf state) (S_buflen state) pin inlen,
                       S_buflen := S_buflen state + inlen\<rparr>)
         else (0, update_rest state pin inlen))"

definition tinyblake_blake2b_init_key ::
  "blake2b_state \<Rightarrow> nat \<Rightarrow> u8 list option \<Rightarrow> nat \<Rightarrow> int \<times> blake2b_state" where
  "tinyblake_blake2b_init_key state outlen key keylen =
    (if outlen = 0 \<or> outlen > 64 then (- 1, state)
     else case key of
       None \<Rightarrow> (- 1, state)
     | Some k \<Rightarrow>
         if keylen = 0 \<or> keylen > 64 then (- 1, state)
         else case init_from_param state (build_default_param (of_nat outlen) (of_nat keylen)) of
           (rc, state) \<Rightarrow>
             if rc \<noteq> 0 then (- 1, state)
             else
               let block = memcpy_at (replicate 128 0) 0 k keylen
               in (0, snd (tinyblake_blake2b_update state (Some block) 128)))"

text \<open>
  \<open>final\<close> returns the return code, the state and the output buffer as the call leaves
  them. The 64-byte staging buffer is the concatenation of the stored words; the first
  \<open>state->outlen\<close> bytes of it are copied to \<open>out\<close>.
\<close>

definition tinyblake_blake2b_final ::
  "blake2b_state \<Rightarrow> u8 list option \<Rightarrow> nat \<Rightarrow> int \<times> blake2b_state \<times> u8 list option" where
  "tinyblake_blake2b_final state out outlen =
    (case out of
       None \<Rightarrow> (- 1, state, out)
     | Some obuf \<Rightarrow>
         if outlen < unat (S_outlen state) then (- 1, state, out)
         else
           let state = advance_counter state (of_nat (S_buflen state));
               state = (if S_buflen state < 128
                        then state\<lparr>S_buf := memset0_at (S_buf state) (S_buflen state)
                                                  (128 - S_buflen state)\<rparr>
                        else state);
               state = compress_block state (S_buf state) True;
               buffer = concat (map (\<lambda>i. store_le64 (S_h state ! i)) [0..<8]);
               obuf = memcpy_at obuf 0 buffer (unat (S_outlen state))
           in (0, zero_state, Some obuf))"

text \<open>
  The one-shot call. Its state \<open>S\<close> is an uninitialised local; the result is the return
  code and the output buffer.
\<close>

definition tinyblake_blake2b ::
  "u8 list option \<Rightarrow> nat \<Rightarrow> u8 list option \<Rightarrow> nat \<Rightarrow> u8 list option \<Rightarrow> nat
     \<Rightarrow> int \<times> u8 list option" where
  "tinyblake_blake2b out outlen inp inlen key keylen =
    (case (if keylen > 0 then tinyblake_blake2b_init_key uninit_state outlen key keylen
           else tinyblake_blake2b_init uninit_state outlen) of
       (rc, S) \<Rightarrow>
         if rc \<noteq> 0 then (rc, out)
         else case tinyblake_blake2b_update S inp inlen of
           (rc, S) \<Rightarrow>
             if rc \<noteq> 0 then (rc, out)
             else case tinyblake_blake2b_final S out outlen of (rc, S, out) \<Rightarrow> (rc, out))"

section \<open>HMAC-BLAKE2b-512 (hmac.cpp)\<close>

record hmac_state =
  inner :: blake2b_state
  outer :: blake2b_state

text \<open>The HMAC state after \<open>tinyblake_secure_zero(state, sizeof(*state))\<close>.\<close>

definition zero_hmac_state :: hmac_state where
  "zero_hmac_state = \<lparr>inner = zero_state, outer = zero_state\<rparr>"

definition uninit_hmac_state :: hmac_state where
  "uninit_hmac_state = \<lparr>inner = uninit_state, outer = uninit_state\<rparr>"

text \<open>
  \<open>derive_pads\<close> is static and only called with a non-null key; it returns the return
  code with the arrays \<open>ipad\<close> and \<open>opad\<close> (left as the caller passed them, here
  uninitialised, when the key hash fails).
\<close>

definition derive_pads :: "u8 list \<Rightarrow> nat \<Rightarrow> int \<times> u8 list \<times> u8 list" where
  "derive_pads key keylen =
    (let keybuf = replicate 128 0 in
     case (if keylen > 128 then
             (case tinyblake_blake2b (Some keybuf) 64 (Some key) keylen None 0 of
                (rc, kb) \<Rightarrow> (rc, case kb of None \<Rightarrow> keybuf | Some kb \<Rightarrow> kb))
           else if keylen > 0 then (0, memcpy_at keybuf 0 key keylen)
           else (0, keybuf)) of
       (rc, keybuf) \<Rightarrow>
         if rc \<noteq> 0 then (- 1, uninit_bytes 128, uninit_bytes 128)
         else (0, map (\<lambda>i. keybuf ! i XOR 0x36) [0..<128],
                  map (\<lambda>i. keybuf ! i XOR 0x5C) [0..<128]))"

definition tinyblake_hmac_init :: "hmac_state \<Rightarrow> u8 list option \<Rightarrow> nat \<Rightarrow> int \<times> hmac_state" where
  "tinyblake_hmac_init state key keylen =
    (case key of
       None \<Rightarrow> (- 1, state)
     | Some k \<Rightarrow>
         if keylen = 0 then (- 1, state)
         else case derive_pads k keylen of
           (rc, ipad, opad) \<Rightarrow>
             if rc \<noteq> 0 then (- 1, state)
             else case tinyblake_blake2b_init (inner state) 64 of
               (rc, S) \<Rightarrow>
                 if rc \<noteq> 0 then (- 1, zero_hmac_state)
                 else case tinyblake_blake2b_update S (Some ipad) 128 of
                   (rc, S) \<Rightarrow>
                     if rc \<noteq> 0 then (- 1, zero_hmac_state)
                     else
                       let state = state\<lparr>inner := S\<rparr> in
                       case tinyblake_blake2b_init (outer state) 64 of
                         (rc, S) \<Rightarrow>
                           if rc \<noteq> 0 then (- 1, zero_hmac_state)
                           else case tinyblake_blake2b_update S (Some opad) 128 of
                             (rc, S) \<Rightarrow>
                               if rc \<noteq> 0 then (- 1, zero_hmac_state)
                               else (0, state\<lparr>outer := S\<rparr>))"

definition tinyblake_hmac_update :: "hmac_state \<Rightarrow> u8 list option \<Rightarrow> nat \<Rightarrow> int \<times> hmac_state" where
  "tinyblake_hmac_update state inp inlen =
    (case tinyblake_blake2b_update (inner state) inp inlen of
       (rc, S) \<Rightarrow> (rc, state\<lparr>inner := S\<rparr>))"

definition tinyblake_hmac_final ::
  "hmac_state \<Rightarrow> u8 list option \<Rightarrow> nat \<Rightarrow> int \<times> hmac_state \<times> u8 list option" where
  "tinyblake_hmac_final state out outlen =
    (case out of
       None \<Rightarrow> (- 1, state, out)
     | Some obuf \<Rightarrow>
         if outlen < 64 then (- 1, state, out)
         else case tinyblake_blake2b_final (inner state) (Some (uninit_bytes 64)) 64 of
           (rc, S, inner_hash) \<Rightarrow>
             if rc \<noteq> 0 then (- 1, zero_hmac_state, out)
             else
               let state = state\<lparr>inner := S\<rparr> in
               case tinyblake_blake2b_update (outer state) inner_hash 64 of
                 (rc, S) \<Rightarrow>
                   if rc \<noteq> 0 then (- 1, zero_hmac_state, out)
                   else case tinyblake_blake2b_final S out outlen of
                     (rc, S, out) \<Rightarrow> (rc, zero_hmac_state, out))"

definition tinyblake_hmac ::
  "u8 list option \<Rightarrow> nat \<Rightarrow> u8 list option \<Rightarrow> nat \<Rightarrow> u8 list option \<Rightarrow> nat
     \<Rightarrow> int \<times> u8 list option" where
  "tinyblake_hmac out outlen key keylen inp inlen =
    (case tinyblake_hmac_init uninit_hmac_state key keylen of
       (rc, state) \<Rightarrow>
         if rc \<noteq> 0 then (rc, out)
         else case tinyblake_hmac_update state inp inlen of
           (rc, state) \<Rightarrow>
             if rc \<noteq> 0 then (rc, out)
             else case tinyblake_hmac_final state out outlen of (rc, state, out) \<Rightarrow> (rc, out))"

subsection \<open>The C++ wrapper \<open>tinyblake::hmac::hasher\<close>\<close>

text \<open>The members \<open>state_\<close> and \<open>key_pad_\<close> are the fields \<open>m_state\<close> and \<open>m_key_pad\<close>.\<close>

record hmac_hasher =
  m_state :: hmac_state
  m_key_pad :: "u8 list"

datatype exn = Invalid_argument string | Runtime_error string

text \<open>The constructor \<open>hasher(const void *key, size_t keylen)\<close>: an exception or the object.\<close>

definition hmac_hasher_new :: "u8 list option \<Rightarrow> nat \<Rightarrow> exn + hmac_hasher" where
  "hmac_hasher_new key keylen =
    (case key of
       None \<Rightarrow> Inl (Invalid_argument ''Hmac: key must be non-null with keylen > 0'')
     | Some k \<Rightarrow>
         if keylen = 0 then Inl (Invalid_argument ''Hmac: key must be non-null with keylen > 0'')
         else
           let key_pad = replicate 128 0;
               key_pad = (if keylen > 128 then
                            (case snd (tinyblake_blake2b (Some key_pad) 64 key keylen None 0) of
                               None \<Rightarrow> key_pad | Some kp \<Rightarrow> kp)
                          else memcpy_at key_pad 0 k keylen)
           in case tinyblake_hmac_init uninit_hmac_state key keylen of
             (rc, st) \<Rightarrow>
               if rc \<noteq> 0 then Inl (Runtime_error ''Hmac: init failed'')
               else Inr \<lparr>m_state = st, m_key_pad = key_pad\<rparr>)"

definition hmac_hasher_update :: "hmac_hasher \<Rightarrow> u8 list option \<Rightarrow> nat \<Rightarrow> exn + hmac_hasher" where
  "hmac_hasher_update this data len =
    (case tinyblake_hmac_update (m_state this) data len of
       (rc, st) \<Rightarrow>
         if rc \<noteq> 0 then Inl (Runtime_error ''Hmac::update failed'')
         else Inr (this\<lparr>m_state := st\<rparr>))"

text \<open>\<open>final_()\<close> returns the 64-byte vector together with the object as the call leaves it.\<close>

definition hmac_hasher_final :: "hmac_hasher \<Rightarrow> exn + (u8 list \<times> hmac_hasher)" where
  "hmac_hasher_final this =
    (case tinyblake_hmac_final (m_state this) (Some (replicate 64 0)) 64 of
       (rc, st, out) \<Rightarrow>
         if rc \<noteq> 0 then Inl (Runtime_error ''Hmac::final_ failed'')
         else Inr (case out of None \<Rightarrow> [] | Some v \<Rightarrow> v, this\<lparr>m_state := st\<rparr>))"

definition hmac_hasher_reset :: "hmac_hasher \<Rightarrow> exn + hmac_hasher" where
  "hmac_hasher_reset this =
    (case tinyblake_hmac_init (m_state this) (Some (m_key_pad this)) 128 of
       (rc, st) \<Rightarrow>
         if rc \<noteq> 0 then Inl (Runtime_error ''Hmac::reset failed'')
         else Inr (this\<lparr>m_state := st\<rparr>))"

section \<open>PBKDF2-HMAC-BLAKE2b-512 (pbkdf2.cpp)\<close>

definition HLEN :: nat where
  "HLEN = 64"

definition UINT32_MAX :: nat where
  "UINT32_MAX = 4294967295"

definition store_be32 :: "u32 \<Rightarrow> u8 list" where
  "store_be32 v =
    [ucast (drop_bit 24 v AND 0xFF), ucast (drop_bit 16 v AND 0xFF),
     ucast (drop_bit 8 v AND 0xFF), ucast (v AND 0xFF)]"

text \<open>
  The loop \<open>for (uint32_t j = 1; j < rounds; ++j)\<close> on the registers \<open>u\<close> and \<open>t\<close>. Each
  iteration runs a fresh HMAC over the previous \<open>u\<close> and XORs the result into \<open>t\<close>; a
  failing HMAC call ends the function with \<open>-1\<close>.
\<close>

function pbkdf2_rounds ::
  "u8 list option \<Rightarrow> nat \<Rightarrow> u32 \<Rightarrow> u32 \<Rightarrow> u8 list \<Rightarrow> u8 list \<Rightarrow> int \<times> u8 list \<times> u8 list" where
  "pbkdf2_rounds password passlen rounds j u t =
    (if j < rounds then
       case tinyblake_hmac_init uninit_hmac_state password passlen of
         (rc, hmac_j) \<Rightarrow>
           if rc \<noteq> 0 then (- 1, replicate 64 0, replicate 64 0)
           else case tinyblake_hmac_update hmac_j (Some u) 64 of
             (rc, hmac_j) \<Rightarrow>
               if rc \<noteq> 0 then (- 1, replicate 64 0, replicate 64 0)
               else case tinyblake_hmac_final hmac_j (Some u) 64 of
                 (rc, hmac_j, u') \<Rightarrow>
                   if rc \<noteq> 0 then (- 1, replicate 64 0, replicate 64 0)
                   else
                     let u = (case u' of None \<Rightarrow> u | Some w \<Rightarrow> w);
                         t = map (\<lambda>k. t ! k XOR u ! k) [0..<64]
                     in pbkdf2_rounds password passlen rounds (j + 1) u t
     else (0, u, t))"
  by pat_completeness auto
termination
proof (relation "measure (\<lambda>(password, passlen, rounds, j, u, t). unat rounds - unat j)")
  show "wf (measure (\<lambda>(password, passlen, rounds, j, u, t). unat rounds - unat j))"
    by simp
next
  fix password :: "u8 list option" and passlen :: nat and rounds j :: u32 and u t :: "u8 list"
    and x1 x2 x3 x4 x5 x6 x7 x8 x9 x10 x11 x12
  assume "j < rounds"
  then have "unat j < unat rounds"
    by (simp add: word_less_nat_alt)
  moreover have "unat rounds < 2 ^ 32"
    using unsigned_less[of rounds] by simp
  ultimately have "unat (j + 1) = unat j + 1"
    by (simp add: unat_word_ariths)
  with \<open>unat j < unat rounds\<close>
  show "((password, passlen, rounds, j + 1, x11, x12), (password, passlen, rounds, j, u, t))
    \<in> measure (\<lambda>(password, passlen, rounds, j, u, t). unat rounds - unat j)"
    by simp
qed

text \<open>
  The loop \<open>while (dk_remaining > 0)\<close>. \<open>obuf\<close> is the whole output buffer and \<open>off\<close> the
  offset of \<open>dk\<close> in it; the result is the return code and the buffer as the function
  leaves it.
\<close>

function pbkdf2_blocks ::
  "u8 list \<Rightarrow> nat \<Rightarrow> nat \<Rightarrow> u32 \<Rightarrow> u8 list option \<Rightarrow> nat \<Rightarrow> u8 list option \<Rightarrow> nat \<Rightarrow> u32
     \<Rightarrow> int \<times> u8 list" where
  "pbkdf2_blocks obuf off dk_remaining block_idx password passlen salt saltlen rounds =
    (if dk_remaining > 0 then
       let cplen = (if dk_remaining < HLEN then dk_remaining else HLEN) in
       case tinyblake_hmac_init uninit_hmac_state password passlen of
         (rc, hmac) \<Rightarrow>
           if rc \<noteq> 0 then (- 1, obuf)
           else case tinyblake_hmac_update hmac salt saltlen of
             (rc, hmac) \<Rightarrow>
               if rc \<noteq> 0 then (- 1, obuf)
               else case tinyblake_hmac_update hmac (Some (store_be32 block_idx)) 4 of
                 (rc, hmac) \<Rightarrow>
                   if rc \<noteq> 0 then (- 1, obuf)
                   else case tinyblake_hmac_final hmac (Some (uninit_bytes 64)) 64 of
                     (rc, hmac, u') \<Rightarrow>
                       if rc \<noteq> 0 then (- 1, obuf)
                       else
                         let u = (case u' of None \<Rightarrow> uninit_bytes 64 | Some w \<Rightarrow> w);
                             t = memcpy_at (uninit_bytes 64) 0 u 64
                         in case pbkdf2_rounds password passlen rounds 1 u t of
                           (rc, u, t) \<Rightarrow>
                             if rc \<noteq> 0 then (- 1, obuf)
                             else
                               let obuf = memcpy_at obuf off t cplen
                               in pbkdf2_blocks obuf (off + cplen) (dk_remaining - cplen)
                                    (block_idx + 1) password passlen salt saltlen rounds
     else (0, obuf))"
  by pat_completeness auto
termination
  by (relation "measure (\<lambda>(obuf, off, dk_remaining, rest). dk_remaining)")
     (auto simp: HLEN_def)

definition tinyblake_pbkdf2 ::
  "u8 list option \<Rightarrow> nat \<Rightarrow> u8 list option \<Rightarrow> nat \<Rightarrow> u8 list option \<Rightarrow> nat \<Rightarrow> u32
     \<Rightarrow> int \<times> u8 list option" where
  "tinyblake_pbkdf2 out outlen password passlen salt saltlen rounds =
    (case out of
       None \<Rightarrow> (- 1, out)
     | Some obuf \<Rightarrow>
         if outlen = 0 then (- 1, out)
         else if rounds = 0 then (- 1, out)
         else if outlen > UINT32_MAX * HLEN then (- 1, out)
         else case pbkdf2_blocks obuf 0 outlen 1 password passlen salt saltlen rounds of
           (rc, obuf) \<Rightarrow> (rc, Some obuf))"

section \<open>Callers and measures used to state the properties\<close>

text \<open>
  A caller that passes the chunks to \<open>update\<close> one after the other and stops at the
  first call that fails.
\<close>

fun update_all :: "blake2b_state \<Rightarrow> u8 list list \<Rightarrow> int \<times> blake2b_state" where
  "update_all S [] = (0, S)"
| "update_all S (c # cs) =
    (case tinyblake_blake2b_update S (Some c) (length c) of
       (rc, S) \<Rightarrow> if rc \<noteq> 0 then (rc, S) else update_all S cs)"

text \<open>
  The streaming sequence \<open>init\<close>, one \<open>update\<close> per chunk, \<open>final\<close>, on a state variable
  with arbitrary previous contents \<open>S\<close>, with the error handling of the one-shot call.
\<close>

definition blake2b_streaming ::
  "blake2b_state \<Rightarrow> u8 list option \<Rightarrow> nat \<Rightarrow> u8 list list \<Rightarrow> int \<times> u8 list option" where
  "blake2b_streaming S out outlen chunks =
    (case tinyblake_blake2b_init S outlen of
       (rc, S) \<Rightarrow>
         if rc \<noteq> 0 then (rc, out)
         else case update_all S chunks of
           (rc, S) \<Rightarrow>
             if rc \<noteq> 0 then (rc, out)
             else case tinyblake_blake2b_final S out outlen of (rc, S, out) \<Rightarrow> (rc, out))"

text \<open>The 128-bit counter value \<open>T1 * 2^64 + T0\<close>.\<close>

definition counter128 :: "blake2b_state \<Rightarrow> nat" where
  "counter128 S = unat (S_t1 S) * 2 ^ 64 + unat (S_t0 S)"

text \<open>
  The bytes held in the residual buffer, and the state with the residual buffer
  cleared: what the rest of a hash computation depends on.
\<close>

definition pending :: "blake2b_state \<Rightarrow> u8 list" where
  "pending S = take (S_buflen S) (S_buf S)"

definition core :: "blake2b_state \<Rightarrow> blake2b_state" where
  "core S = S\<lparr>S_buf := [], S_buflen := 0\<rparr>"

text \<open>
  Absorbing a byte string: while more than 128 bytes are left, advance the counter by
  128 and compress the first 128 bytes. The bytes returned are those not yet compressed.
\<close>

function absorb :: "blake2b_state \<Rightarrow> u8 list \<Rightarrow> blake2b_state \<times> u8 list" where
  "absorb S xs =
    (if length xs > 128
     then absorb (compress_block (advance_counter S 128) (take 128 xs) False) (drop 128 xs)
     else (S, xs))"
  by pat_completeness auto
termination
  by (relation "measure (\<lambda>(S, xs). length xs)") auto

text \<open>
  The shape of a state at an API boundary after a successful init: the buffer array has
  its 128 bytes and at most 128 of them are in use.
\<close>

definition boundary :: "blake2b_state \<Rightarrow> bool" where
  "boundary S \<longleftrightarrow> S_buflen S \<le> 128 \<and> length (S_buf S) = 128"

text \<open>
  What the return codes of the HMAC calls depend on: a state whose buffer length is in
  range and whose digest length is 64, and an HMAC state made of two such states.
\<close>

definition good_state :: "blake2b_state \<Rightarrow> bool" where
  "good_state S \<longleftrightarrow> S_buflen S \<le> 128 \<and> S_outlen S = 64"

definition good_hmac :: "hmac_state \<Rightarrow> bool" where
  "good_hmac s \<longleftrightarrow> good_state (inner s) \<and> good_state (outer s)"


text \<open>A caller that feeds one message to a hasher and finalises it, returning the MAC.\<close>

definition hmac_hasher_mac :: "hmac_hasher \<Rightarrow> u8 list \<Rightarrow> exn + u8 list" where
  "hmac_hasher_mac this msg =
    (case hmac_hasher_update this (Some msg) (length msg) of
       Inl e \<Rightarrow> Inl e
     | Inr h \<Rightarrow> (case hmac_hasher_final h of Inl e \<Rightarrow> Inl e | Inr (mac, h') \<Rightarrow> Inr mac))"

text \<open>
  The 128-byte key block of HMAC: the key followed by zeros, or for a key longer than
  128 bytes what the one-shot BLAKE2b-512 call leaves in a zeroed 128-byte buffer.
\<close>

definition hmac_key_block :: "u8 list \<Rightarrow> nat \<Rightarrow> u8 list" where
  "hmac_key_block k keylen =
    (if keylen > 128 then
       (case snd (tinyblake_blake2b (Some (replicate 128 0)) 64 (Some k) keylen None 0) of
          None \<Rightarrow> replicate 128 0 | Some kb \<Rightarrow> kb)
     else memcpy_at (replicate 128 0) 0 k keylen)"
section \<open>The compression function as the specification words it\<close>

text \<open>
  A second definition, written from the specification's description (and RFC 7693), to
  compare with the one above: little-endian words by place value, a true rotation, the
  mixing function on four words and two message words, the ten-row schedule indexed by
  \<open>round mod 10\<close>, and a loop over twelve rounds.
\<close>

definition spec_le64 :: "u8 list \<Rightarrow> u64" where
  "spec_le64 bs = word_of_nat (\<Sum>k < 8. unat (bs ! k) * 256 ^ k)"

definition spec_SIGMA :: "nat list list" where
  "spec_SIGMA = [
    [0, 1, 2, 3, 4, 5, 6, 7, 8, 9, 10, 11, 12, 13, 14, 15],
    [14, 10, 4, 8, 9, 15, 13, 6, 1, 12, 0, 2, 11, 7, 5, 3],
    [11, 8, 12, 0, 5, 2, 15, 13, 10, 14, 3, 6, 7, 1, 9, 4],
    [7, 9, 3, 1, 13, 12, 11, 14, 2, 6, 5, 10, 4, 0, 15, 8],
    [9, 0, 5, 7, 2, 4, 10, 15, 14, 1, 11, 12, 6, 8, 3, 13],
    [2, 12, 6, 10, 0, 11, 8, 3, 4, 13, 7, 5, 15, 14, 1, 9],
    [12, 5, 1, 15, 14, 13, 4, 10, 0, 7, 6, 3, 9, 2, 8, 11],
    [13, 11, 7, 14, 12, 1, 3, 9, 5, 0, 15, 4, 8, 6, 2, 10],
    [6, 15, 14, 9, 11, 3, 0, 8, 12, 2, 13, 7, 1, 4, 10, 5],
    [10, 2, 8, 4, 7, 6, 1, 5, 15, 11, 9, 14, 3, 12, 13, 0]]"

definition spec_G :: "u64 \<times> u64 \<times> u64 \<times> u64 \<Rightarrow> u64 \<Rightarrow> u64 \<Rightarrow> u64 \<times> u64 \<times> u64 \<times> u64" where
  "spec_G abcd x y =
    (case abcd of (a, b, c, d) \<Rightarrow>
      let a = a + b + x; d = word_rotr 32 (d XOR a);
          c = c + d; b = word_rotr 24 (b XOR c);
          a = a + b + y; d = word_rotr 16 (d XOR a);
          c = c + d; b = word_rotr 63 (b XOR c)
      in (a, b, c, d))"

definition spec_mix :: "u64 list \<Rightarrow> nat list \<Rightarrow> nat \<times> nat \<times> nat \<times> nat \<Rightarrow> nat \<Rightarrow> u64 list \<Rightarrow> u64 list" where
  "spec_mix m s idx i v =
    (case idx of (ia, ib, ic, jd) \<Rightarrow>
      case spec_G (v ! ia, v ! ib, v ! ic, v ! jd) (m ! (s ! (2 * i))) (m ! (s ! (2 * i + 1))) of
        (a, b, c, d) \<Rightarrow> v[ia := a, ib := b, ic := c, jd := d])"

definition spec_columns :: "(nat \<times> nat \<times> nat \<times> nat) list" where
  "spec_columns = [(0, 4, 8, 12), (1, 5, 9, 13), (2, 6, 10, 14), (3, 7, 11, 15)]"

definition spec_diagonals :: "(nat \<times> nat \<times> nat \<times> nat) list" where
  "spec_diagonals = [(0, 5, 10, 15), (1, 6, 11, 12), (2, 7, 8, 13), (3, 4, 9, 14)]"

definition spec_round :: "u64 list \<Rightarrow> nat \<Rightarrow> u64 list \<Rightarrow> u64 list" where
  "spec_round m r v =
    (let s = spec_SIGMA ! (r mod 10)
     in fold (\<lambda>i. spec_mix m s ((spec_columns @ spec_diagonals) ! i) i) [0..<8] v)"

definition spec_compress :: "u64 list \<Rightarrow> u8 list \<Rightarrow> u64 \<Rightarrow> u64 \<Rightarrow> bool \<Rightarrow> u64 list" where
  "spec_compress H block t0 t1 last_flag =
    (let m = map (\<lambda>i. spec_le64 (take 8 (drop (8 * i) block))) [0..<16];
         v = H @ take 4 IV @
             [IV ! 4 XOR t0, IV ! 5 XOR t1, (if last_flag then NOT (IV ! 6) else IV ! 6), IV ! 7];
         v = fold (spec_round m) [0..<12] v
     in map (\<lambda>i. H ! i XOR v ! i XOR v ! (i + 8)) [0..<8])"

section \<open>The source's compression function meets the specification's\<close>

lemma rotr64_word_rotr:
  assumes "0 < n" "n < 64"
  shows "rotr64 x n = word_rotr n x"
proof (rule bit_word_eqI)
  fix k :: nat
  assume "k < LENGTH(64)"
  then have k: "k < 64" by simp
  have L: "bit (rotr64 x n) k = (bit x (n + k) \<or> 64 - n \<le> k \<and> bit x (k - (64 - n)))"
    using k by (simp add: rotr64_def bit_or_iff bit_drop_bit_eq bit_push_bit_iff)
  have R: "bit (word_rotr n x) k = bit x ((k + n) mod 64)"
    using k by (simp add: bit_word_rotr_iff)
  show "bit (rotr64 x n) k = bit (word_rotr n x) k"
  proof (cases "k + n < 64")
    case True
    then have "(k + n) mod 64 = k + n" and "\<not> 64 - n \<le> k" by simp_all
    then show ?thesis unfolding L R by (simp add: add.commute)
  next
    case False
    then have m: "(k + n) mod 64 = k - (64 - n)" and le: "64 - n \<le> k"
      using k assms by (simp_all add: mod_if)
    have "\<not> bit x (n + k)"
      using False bit_imp_le_length[of x "n + k"] by (auto simp: add.commute)
    then show ?thesis unfolding L R m using le by simp
  qed
qed

lemma ucast_add_push8: "(ucast (b::u8) :: u64) + push_bit 8 w = ucast b OR push_bit 8 w"
  by (rule disjunctive_add) (auto simp: bit_simps dest: bit_imp_le_length)

lemma of_nat_byte_step:
  "(word_of_nat (unat (b::u8) + 256 * n) :: u64) = ucast b OR push_bit 8 (word_of_nat n)"
proof -
  have "(word_of_nat (unat b + 256 * n) :: u64) = ucast b + push_bit 8 (word_of_nat n)"
    by (simp add: push_bit_eq_mult)
  then show ?thesis by (simp only: ucast_add_push8)
qed

lemma sum_bytes_horner:
  "(\<Sum>k < 8. f k * (256::nat) ^ k) =
     f 0 + 256 * (f 1 + 256 * (f 2 + 256 * (f 3 + 256 * (f 4 + 256 * (f 5 + 256 * (f 6 + 256 * f 7))))))"
proof -
  have "{..<8::nat} = {0, 1, 2, 3, 4, 5, 6, 7}" by auto
  then show ?thesis by simp
qed

lemma spec_le64_load_le64: "spec_le64 bs = load_le64 bs"
  unfolding spec_le64_def load_le64_def sum_bytes_horner of_nat_byte_step
  by simp

lemma load_le64_take: "load_le64 (take 8 bs) = load_le64 bs"
  by (simp add: load_le64_def)

lemma G_spec_mix: "G r i a b c d m v = spec_mix m (SIGMA_tbl ! r) (a, b, c, d) i v"
  by (simp add: G_def spec_mix_def spec_G_def Let_def rotr64_word_rotr)

lemma SIGMA_rows: "r < 12 \<Longrightarrow> SIGMA_tbl ! r = spec_SIGMA ! (r mod 10)"
proof -
  assume "r < 12"
  then have "r \<in> {0, 1, 2, 3, 4, 5, 6, 7, 8, 9, 10, 11}" by simp arith
  then show ?thesis
    by (auto simp add: SIGMA_tbl_def spec_SIGMA_def)
qed

lemma upt8: "[0..<8] = [0, 1, 2, 3, 4, 5, 6, 7]"
  by (simp add: upt_rec)

lemma upt12: "[0..<12] = [0, 1, 2, 3, 4, 5, 6, 7, 8, 9, 10, 11]"
  by (simp add: upt_rec)

lemma ROUND_spec_round: "r < 12 \<Longrightarrow> ROUND r m v = spec_round m r v"
  by (simp add: ROUND_def spec_round_def G_spec_mix SIGMA_rows upt8
      spec_columns_def spec_diagonals_def Let_def)

lemma message_words_spec:
  "map (\<lambda>i. load_le64 (drop (i * 8) block)) [0..<16] =
   map (\<lambda>i. spec_le64 (take 8 (drop (8 * i) block))) [0..<16]"
  by (simp add: spec_le64_load_le64 load_le64_take mult.commute)

lemma NOT_eq_xor_ones: "(x::u64) XOR 0xFFFFFFFFFFFFFFFF = NOT x"
proof -
  have "(0xFFFFFFFFFFFFFFFF :: u64) = - 1" by simp
  then show ?thesis by (simp only: bit.xor_one_right)
qed

lemma initial_v_spec:
  assumes "length H = 8"
  shows "map (\<lambda>i. H ! i) [0..<8] @
             [IV ! 0, IV ! 1, IV ! 2, IV ! 3, IV ! 4 XOR t0, IV ! 5 XOR t1,
              (if lst then IV ! 6 XOR 0xFFFFFFFFFFFFFFFF else IV ! 6), IV ! 7] =
         H @ take 4 IV @
             [IV ! 4 XOR t0, IV ! 5 XOR t1, (if lst then NOT (IV ! 6) else IV ! 6), IV ! 7]"
proof -
  have "map (\<lambda>i. H ! i) [0..<8] = H"
    using assms map_nth[of H] by simp
  moreover have "take 4 IV = [IV ! 0, IV ! 1, IV ! 2, IV ! 3]"
    by (simp add: IV_def)
  ultimately show ?thesis by (simp only: NOT_eq_xor_ones append_Cons append_Nil)
qed

lemma twelve_rounds_spec:
  "ROUND 11 m (ROUND 10 m (ROUND 9 m (ROUND 8 m (ROUND 7 m (ROUND 6 m (ROUND 5 m (ROUND 4 m
     (ROUND 3 m (ROUND 2 m (ROUND 1 m (ROUND 0 m v))))))))))) = fold (spec_round m) [0..<12] v"
  by (simp add: upt12 ROUND_spec_round)

text \<open>
  Claim C1. For every chaining value \<open>H\<close> (eight words), every 128-byte block, all
  counters \<open>t0\<close>, \<open>t1\<close> and either value of the last flag, the portable backend computes
  what the specification describes: the block read as sixteen little-endian 64-bit
  words, the working vector \<open>H\<close>, \<open>IV[0..3]\<close>, \<open>IV[4] XOR t0\<close>, \<open>IV[5] XOR t1\<close>, \<open>IV[6]\<close>
  (complemented exactly when the flag is set), \<open>IV[7]\<close>, twelve rounds of the mixing
  permutation with the message schedule \<open>SIGMA[round mod 10]\<close>, and the feed-forward
  \<open>H[i] XOR v[i] XOR v[i+8]\<close>; every word operation is on \<open>64 word\<close>, that is modulo
  \<open>2^64\<close>.
\<close>

theorem compress_portable_meets_spec:
  assumes "length H = 8" and "length block = 128"
  shows "blake2b_compress_portable H block t0 t1 lst = spec_compress H block t0 t1 lst"
  unfolding blake2b_compress_portable_def spec_compress_def Let_def
    message_words_spec initial_v_spec[OF assms(1)] twelve_rounds_spec
  by (simp add: xor.assoc)

theorem compress_portable_meets_spec_witness:
  "length IV = 8 \<and> length (replicate 128 (0::u8)) = 128 \<and>
   blake2b_compress_portable IV (replicate 128 0) 128 0 True =
   spec_compress IV (replicate 128 0) 128 0 True"
  using compress_portable_meets_spec[of IV "replicate 128 0" 128 0 True]
  by (simp add: IV_def)

section \<open>Basic facts about the state machine\<close>

lemma advance_counter_fields [simp]:
  "S_h (advance_counter S n) = S_h S"
  "S_buf (advance_counter S n) = S_buf S"
  "S_buflen (advance_counter S n) = S_buflen S"
  "S_outlen (advance_counter S n) = S_outlen S"
  by (simp_all add: advance_counter_def Let_def)

lemma compress_block_fields [simp]:
  "S_t0 (compress_block S b l) = S_t0 S"
  "S_t1 (compress_block S b l) = S_t1 S"
  "S_buf (compress_block S b l) = S_buf S"
  "S_buflen (compress_block S b l) = S_buflen S"
  "S_outlen (compress_block S b l) = S_outlen S"
  by (simp_all add: compress_block_def)

lemma zero_state_fields [simp]:
  "S_h zero_state = replicate 8 0"
  "S_t0 zero_state = 0"
  "S_t1 zero_state = 0"
  "S_buf zero_state = replicate 128 0"
  "S_buflen zero_state = 0"
  "S_outlen zero_state = 0"
  by (simp_all add: zero_state_def)

declare update_blocks.simps [simp del]

lemma update_blocks_fields:
  "update_blocks S pin inlen = (S', pin', inlen') \<Longrightarrow>
     inlen' \<le> 128 \<and> (0 < inlen \<longrightarrow> 0 < inlen') \<and>
     S_buf S' = S_buf S \<and> S_buflen S' = S_buflen S \<and> S_outlen S' = S_outlen S"
proof (induction S pin inlen rule: update_blocks.induct)
  case (1 S pin inlen)
  show ?case
  proof (cases "inlen > 128")
    case True
    with "1.prems" have
      "update_blocks (compress_block (advance_counter S 128) pin False) (drop 128 pin) (inlen - 128)
         = (S', pin', inlen')"
      by (simp add: update_blocks.simps[of S pin inlen] Let_def)
    from "1.IH"[OF True refl refl this] True show ?thesis by simp
  next
    case False
    with "1.prems" show ?thesis
      by (auto simp: update_blocks.simps[of S pin inlen])
  qed
qed

lemma update_rest_fields:
  "S_buflen (update_rest S pin inlen) \<le> 128 \<or> S_buflen (update_rest S pin inlen) = S_buflen S"
  "S_outlen (update_rest S pin inlen) = S_outlen S"
  "0 < inlen \<Longrightarrow> 0 < S_buflen (update_rest S pin inlen) \<and> S_buflen (update_rest S pin inlen) \<le> 128"
proof -
  obtain S' pin' inlen' where u: "update_blocks S pin inlen = (S', pin', inlen')"
    by (cases "update_blocks S pin inlen") auto
  note f = update_blocks_fields[OF u]
  show "S_buflen (update_rest S pin inlen) \<le> 128 \<or> S_buflen (update_rest S pin inlen) = S_buflen S"
    using f by (simp add: update_rest_def u)
  show "S_outlen (update_rest S pin inlen) = S_outlen S"
    using f by (simp add: update_rest_def u)
  show "0 < inlen \<Longrightarrow> 0 < S_buflen (update_rest S pin inlen) \<and> S_buflen (update_rest S pin inlen) \<le> 128"
    using f by (simp add: update_rest_def u)
qed

lemma update_rc:
  "fst (tinyblake_blake2b_update S inp inlen) =
     (if S_buflen S > 128 then - 1 else if inlen = 0 then 0 else if inp = None then - 1 else 0)"
  by (simp add: tinyblake_blake2b_update_def Let_def split: option.split)

lemma update_buflen:
  assumes "S_buflen S \<le> 128"
  shows "S_buflen (snd (tinyblake_blake2b_update S inp inlen)) \<le> 128"
proof (cases inp)
  case None
  with assms show ?thesis by (simp add: tinyblake_blake2b_update_def)
next
  case (Some pin)
  show ?thesis
  proof (cases "inlen = 0")
    case True
    with assms show ?thesis by (simp add: tinyblake_blake2b_update_def)
  next
    case False
    then have pos: "0 < inlen" by simp
    show ?thesis
    proof (cases "S_buflen S > 0")
      case False
      with assms Some pos update_rest_fields(3)[OF pos, of S pin] show ?thesis
        by (simp add: tinyblake_blake2b_update_def)
    next
      case True
      show ?thesis
      proof (cases "inlen > 128 - S_buflen S")
        case False
        with assms Some pos True show ?thesis
          by (simp add: tinyblake_blake2b_update_def Let_def)
      next
        case gt: True
        then have "0 < inlen - (128 - S_buflen S)" by simp
        from update_rest_fields(3)[OF this] assms Some pos True gt show ?thesis
          by (simp add: tinyblake_blake2b_update_def Let_def)
      qed
    qed
  qed
qed

lemma update_outlen:
  "S_outlen (snd (tinyblake_blake2b_update S inp inlen)) = S_outlen S"
  by (simp add: tinyblake_blake2b_update_def Let_def update_rest_fields(2) split: option.split)

lemma build_default_param_nth0 [simp]: "build_default_param outlen keylen ! 0 = outlen"
  by (simp add: build_default_param_def Let_def)

lemma init_from_param_ok:
  "p ! 0 \<noteq> 0 \<Longrightarrow> p ! 0 \<le> 64 \<Longrightarrow>
   init_from_param S p =
     (0, zero_state\<lparr>S_outlen := p ! 0,
                     S_h := map (\<lambda>i. IV ! i XOR load_le64 (drop (i * 8) p)) [0..<8]\<rparr>)"
  by (simp add: init_from_param_def Let_def not_less)

lemma init_from_param_fail:
  "p ! 0 = 0 \<or> p ! 0 > 64 \<Longrightarrow> init_from_param S p = (- 1, S)"
  by (simp add: init_from_param_def)

lemma init_from_param_cases:
  "init_from_param S p = (- 1, S) \<or>
   (fst (init_from_param S p) = 0 \<and> S_buflen (snd (init_from_param S p)) = 0 \<and>
    S_outlen (snd (init_from_param S p)) = p ! 0 \<and> p ! 0 \<noteq> 0 \<and> p ! 0 \<le> 64 \<and>
    S_t0 (snd (init_from_param S p)) = 0 \<and> S_t1 (snd (init_from_param S p)) = 0 \<and>
    length (S_buf (snd (init_from_param S p))) = 128)"
  by (auto simp: init_from_param_def Let_def not_less)

lemma of_nat_outlen:
  assumes "0 < n" "n \<le> 64"
  shows "(of_nat n :: u8) \<noteq> 0" "(of_nat n :: u8) \<le> 64" "unat (of_nat n :: u8) = n"
proof -
  show u: "unat (of_nat n :: u8) = n"
    using assms by (simp add: unat_of_nat)
  show "(of_nat n :: u8) \<noteq> 0"
    using u assms by force
  show "(of_nat n :: u8) \<le> 64"
    using u assms by (simp add: word_le_nat_alt)
qed

lemma init_ok:
  assumes "0 < outlen" "outlen \<le> 64"
  shows "tinyblake_blake2b_init S outlen =
     (0, zero_state\<lparr>S_outlen := of_nat outlen,
                     S_h := map (\<lambda>i. IV ! i XOR load_le64 (drop (i * 8)
                                (build_default_param (of_nat outlen) 0))) [0..<8]\<rparr>)"
  using assms of_nat_outlen[OF assms]
  by (simp add: tinyblake_blake2b_init_def init_from_param_ok)

lemma init_fail:
  "outlen = 0 \<or> outlen > 64 \<Longrightarrow> tinyblake_blake2b_init S outlen = (- 1, S)"
  by (auto simp add: tinyblake_blake2b_init_def)

text \<open>A successful init overwrites the whole state: the previous contents do not matter.\<close>

lemma init_overwrites:
  "fst (tinyblake_blake2b_init S outlen) = 0 \<Longrightarrow>
   tinyblake_blake2b_init S outlen = tinyblake_blake2b_init S' outlen"
  by (cases "outlen = 0 \<or> outlen > 64") (auto simp: init_fail init_ok)

lemma final_fields:
  "tinyblake_blake2b_final S out outlen = (rc, S', out') \<Longrightarrow>
     (rc = 0 \<and> S' = zero_state \<and> out \<noteq> None \<and> unat (S_outlen S) \<le> outlen) \<or>
     (rc = - 1 \<and> S' = S \<and> out' = out \<and> (out = None \<or> outlen < unat (S_outlen S)))"
  by (auto simp: tinyblake_blake2b_final_def Let_def split: option.splits if_splits)

section \<open>Constant-time equality\<close>

lemma xor_zero_iff_eq: "(a::u8) XOR b = 0 \<longleftrightarrow> a = b"
proof
  assume h: "a XOR b = 0"
  have "a = (a XOR b) XOR b" by (simp add: xor.assoc)
  with h show "a = b" by simp
next
  assume "a = b"
  then show "a XOR b = 0" by simp
qed

lemma diff_fold_zero_iff:
  "fold (\<lambda>i diff. diff OR (pa ! i XOR pb ! i)) [0..<n] (d::u8) = 0 \<longleftrightarrow>
     d = 0 \<and> (\<forall>i < n. pa ! i = pb ! i)"
proof (induction n)
  case 0
  show ?case by simp
next
  case (Suc n)
  have "(x OR (pa ! n XOR pb ! n) = 0) = (x = 0 \<and> pa ! n = pb ! n)" for x :: u8
    by (simp add: or_eq_0_iff xor_zero_iff_eq)
  with Suc show ?case
    by (auto simp: less_Suc_eq)
qed

lemma take_eq_iff_nth:
  assumes "len \<le> length a" "len \<le> length b"
  shows "take len a = take len b \<longleftrightarrow> (\<forall>i < len. a ! i = b ! i)"
  using assms by (auto simp: list_eq_iff_nth_eq)

text \<open>
  Claim C9. For two regions \<open>a\<close> and \<open>b\<close> holding at least \<open>len\<close> bytes,
  \<open>tinyblake_constant_time_eq a b len\<close> is 1 when the first \<open>len\<close> bytes agree and 0
  otherwise; with length 0 it is 1 for any two pointers.
\<close>

theorem constant_time_eq_correct:
  assumes "len \<le> length a" and "len \<le> length b"
  shows "tinyblake_constant_time_eq a b len = (if take len a = take len b then 1 else 0) \<and>
         tinyblake_constant_time_eq a' b' 0 = 1"
  using take_eq_iff_nth[OF assms]
  by (simp add: tinyblake_constant_time_eq_def diff_fold_zero_iff)

theorem constant_time_eq_correct_witness:
  "tinyblake_constant_time_eq [1, 2, 3] [1, 2, 4] 3 = 0 \<and>
   tinyblake_constant_time_eq [1, 2, 3] [1, 2, 4] 2 = 1 \<and>
   tinyblake_constant_time_eq [] [7] 0 = 1"
  using constant_time_eq_correct[of 3 "[1, 2, 3]" "[1, 2, 4]" "[]" "[7]"]
        constant_time_eq_correct[of 2 "[1, 2, 3]" "[1, 2, 4]" "[]" "[7]"]
  by simp

section \<open>Rejected final\<close>

text \<open>
  Claim C7. When the capacity \<open>outlen\<close> passed to \<open>final\<close> is smaller than the digest
  length stored in the state, the call returns \<open>-1\<close>, the output buffer is as it was and
  the state is as it was, so that a later \<open>final\<close> behaves as if the rejected call had
  not happened.
\<close>

theorem final_rejects_short_output:
  assumes "outlen < unat (S_outlen state)"
  shows "tinyblake_blake2b_final state out outlen = (- 1, state, out) \<and>
         tinyblake_blake2b_final (fst (snd (tinyblake_blake2b_final state out outlen))) out2 n =
           tinyblake_blake2b_final state out2 n"
  using assms by (simp add: tinyblake_blake2b_final_def split: option.split)

theorem final_rejects_short_output_witness:
  "(32::nat) < unat (S_outlen (snd (tinyblake_blake2b_init uninit_state 64))) \<and>
   tinyblake_blake2b_final (snd (tinyblake_blake2b_init uninit_state 64)) (Some (replicate 32 0)) 32 =
     (- 1, snd (tinyblake_blake2b_init uninit_state 64), Some (replicate 32 0))"
proof -
  have h: "(32::nat) < unat (S_outlen (snd (tinyblake_blake2b_init uninit_state 64)))"
    by (simp add: init_ok)
  from final_rejects_short_output[OF h, of "Some (replicate 32 0)"] h show ?thesis
    by simp
qed

section \<open>The residual buffer at API boundaries\<close>

lemma update_into_empty_buffer:
  assumes "S_buflen S = 0" "0 < inlen" "inlen \<le> 128"
  shows "tinyblake_blake2b_update S (Some pin) inlen =
           (0, S\<lparr>S_buf := memcpy_at (S_buf S) 0 pin inlen, S_buflen := inlen\<rparr>)"
  using assms
  by (simp add: tinyblake_blake2b_update_def update_rest_def update_blocks.simps[of S pin inlen])

lemma init_key_buflen:
  assumes "S_buflen S \<le> 128"
  shows "S_buflen (snd (tinyblake_blake2b_init_key S n key keylen)) \<le> 128"
proof -
  let ?p = "build_default_param (of_nat n) (of_nat keylen)"
  from init_from_param_cases[of S ?p]
  have "S_buflen (snd (init_from_param S ?p)) \<le> 128"
    using assms by auto
  then show ?thesis
    using assms
    by (auto simp: tinyblake_blake2b_init_key_def Let_def update_buflen
             split: option.split prod.split)
qed

lemma init_buflen:
  assumes "S_buflen S \<le> 128"
  shows "S_buflen (snd (tinyblake_blake2b_init S n)) \<le> 128"
  using assms init_from_param_cases[of S "build_default_param (of_nat n) 0"]
  by (auto simp: tinyblake_blake2b_init_def)

lemma init_param_buflen:
  assumes "S_buflen S \<le> 128"
  shows "S_buflen (snd (tinyblake_blake2b_init_param S p)) \<le> 128"
proof (cases p)
  case None
  with assms show ?thesis by (simp add: tinyblake_blake2b_init_param_def)
next
  case (Some q)
  with assms init_from_param_cases[of S q] show ?thesis
    by (auto simp: tinyblake_blake2b_init_param_def)
qed

lemma final_buflen:
  assumes "S_buflen S \<le> 128"
  shows "S_buflen (fst (snd (tinyblake_blake2b_final S out n))) \<le> 128"
proof -
  obtain rc S' out' where f: "tinyblake_blake2b_final S out n = (rc, S', out')"
    by (cases "tinyblake_blake2b_final S out n") auto
  from final_fields[OF f] assms show ?thesis
    by (auto simp: f)
qed

lemma update_flushes_full_buffer:
  assumes "S_buflen S = 128" "0 < inlen"
  shows "fst (tinyblake_blake2b_update S (Some pin) inlen) = 0 \<and>
         0 < S_buflen (snd (tinyblake_blake2b_update S (Some pin) inlen))"
  using assms update_rest_fields(3)[OF assms(2)]
  by (simp add: tinyblake_blake2b_update_def Let_def)

lemma memcpy_at_nothing: "memcpy_at dst off src 0 = dst"
  by (simp add: memcpy_at_def)

lemma update_on_full_buffer:
  assumes "S_buflen S = 128" "0 < inlen"
  shows "tinyblake_blake2b_update S (Some pin) inlen =
           (0, update_rest ((compress_block (advance_counter S 128) (S_buf S) False)
                              \<lparr>S_buflen := 0\<rparr>) pin inlen)"
proof -
  have "S\<lparr>S_buf := S_buf S\<rparr> = S" by simp
  then show ?thesis
    using assms by (simp add: tinyblake_blake2b_update_def Let_def memcpy_at_nothing)
qed

lemma update_rest_short:
  assumes "0 < inlen" "inlen \<le> 128"
  shows "update_rest S pin inlen = S\<lparr>S_buf := memcpy_at (S_buf S) 0 pin inlen, S_buflen := inlen\<rparr>"
  using assms by (simp add: update_rest_def update_blocks.simps[of S pin inlen])

lemma update_on_full_buffer_short:
  assumes "S_buflen S = 128" "0 < inlen" "inlen \<le> 128"
  shows "S_h (snd (tinyblake_blake2b_update S (Some pin) inlen)) =
           get_compress (S_h S) (S_buf S) (S_t0 S + 128)
             (if S_t0 S + 128 < 128 then S_t1 S + 1 else S_t1 S) False"
    and "S_t0 (snd (tinyblake_blake2b_update S (Some pin) inlen)) = S_t0 S + 128"
    and "S_t1 (snd (tinyblake_blake2b_update S (Some pin) inlen)) =
           (if S_t0 S + 128 < 128 then S_t1 S + 1 else S_t1 S)"
    and "S_buflen (snd (tinyblake_blake2b_update S (Some pin) inlen)) = inlen"
    and "S_buf (snd (tinyblake_blake2b_update S (Some pin) inlen)) =
           memcpy_at (S_buf S) 0 pin inlen"
  unfolding update_on_full_buffer[OF assms(1,2)] update_rest_short[OF assms(2,3)]
  by (simp_all add: compress_block_def advance_counter_def Let_def)

text \<open>
  Claim C5, as the code has it. Every init, update and final operation that starts with
  \<open>buflen \<le> 128\<close> ends with \<open>buflen \<le> 128\<close>. A buffer holding a full block
  (\<open>buflen = 128\<close>) is a legal state before an update as well as before a final: an
  update with input then succeeds, compressing the buffered block first and keeping at
  least one byte buffered. Compressing first means: the counter is advanced by 128, the
  128 buffered bytes are compressed into the chaining value with the last flag clear,
  the buffer is emptied, and only then is the new input processed (further full blocks
  compressed, the rest buffered); for an input of at most 128 bytes the resulting
  chaining value is exactly the compression of the buffered block and the input is what
  the buffer then holds.
\<close>

theorem buflen_at_most_128:
  assumes "S_buflen S \<le> 128"
  shows "S_buflen (snd (tinyblake_blake2b_init S n)) \<le> 128 \<and>
         S_buflen (snd (tinyblake_blake2b_init_key S n key keylen)) \<le> 128 \<and>
         S_buflen (snd (tinyblake_blake2b_init_param S p)) \<le> 128 \<and>
         S_buflen (snd (tinyblake_blake2b_update S inp inlen)) \<le> 128 \<and>
         S_buflen (fst (snd (tinyblake_blake2b_final S out m))) \<le> 128 \<and>
         (S_buflen S = 128 \<and> 0 < inlen \<longrightarrow>
            fst (tinyblake_blake2b_update S (Some pin) inlen) = 0 \<and>
            0 < S_buflen (snd (tinyblake_blake2b_update S (Some pin) inlen)) \<and>
            tinyblake_blake2b_update S (Some pin) inlen =
              (0, update_rest ((compress_block (advance_counter S 128) (S_buf S) False)
                                 \<lparr>S_buflen := 0\<rparr>) pin inlen)) \<and>
         (S_buflen S = 128 \<and> 0 < inlen \<and> inlen \<le> 128 \<longrightarrow>
            S_h (snd (tinyblake_blake2b_update S (Some pin) inlen)) =
              get_compress (S_h S) (S_buf S) (S_t0 S + 128)
                (if S_t0 S + 128 < 128 then S_t1 S + 1 else S_t1 S) False \<and>
            S_t0 (snd (tinyblake_blake2b_update S (Some pin) inlen)) = S_t0 S + 128 \<and>
            S_t1 (snd (tinyblake_blake2b_update S (Some pin) inlen)) =
              (if S_t0 S + 128 < 128 then S_t1 S + 1 else S_t1 S) \<and>
            S_buflen (snd (tinyblake_blake2b_update S (Some pin) inlen)) = inlen \<and>
            S_buf (snd (tinyblake_blake2b_update S (Some pin) inlen)) =
              memcpy_at (S_buf S) 0 pin inlen)"
proof -
  have full: "S_buflen S = 128 \<and> 0 < inlen \<longrightarrow>
            fst (tinyblake_blake2b_update S (Some pin) inlen) = 0 \<and>
            0 < S_buflen (snd (tinyblake_blake2b_update S (Some pin) inlen)) \<and>
            tinyblake_blake2b_update S (Some pin) inlen =
              (0, update_rest ((compress_block (advance_counter S 128) (S_buf S) False)
                                 \<lparr>S_buflen := 0\<rparr>) pin inlen)"
    using update_flushes_full_buffer[of S inlen pin] update_on_full_buffer[of S inlen pin]
    by blast
  have short: "S_buflen S = 128 \<and> 0 < inlen \<and> inlen \<le> 128 \<longrightarrow>
            S_h (snd (tinyblake_blake2b_update S (Some pin) inlen)) =
              get_compress (S_h S) (S_buf S) (S_t0 S + 128)
                (if S_t0 S + 128 < 128 then S_t1 S + 1 else S_t1 S) False \<and>
            S_t0 (snd (tinyblake_blake2b_update S (Some pin) inlen)) = S_t0 S + 128 \<and>
            S_t1 (snd (tinyblake_blake2b_update S (Some pin) inlen)) =
              (if S_t0 S + 128 < 128 then S_t1 S + 1 else S_t1 S) \<and>
            S_buflen (snd (tinyblake_blake2b_update S (Some pin) inlen)) = inlen \<and>
            S_buf (snd (tinyblake_blake2b_update S (Some pin) inlen)) =
              memcpy_at (S_buf S) 0 pin inlen"
    using update_on_full_buffer_short[of S inlen pin] by blast
  from init_buflen[OF assms, of n] init_key_buflen[OF assms, of n key keylen]
    init_param_buflen[OF assms, of p] update_buflen[OF assms, of inp inlen]
    final_buflen[OF assms, of out m] full short
  show ?thesis by (intro conjI)
qed

theorem buflen_at_most_128_witness:
  "S_buflen (zero_state\<lparr>S_buflen := 128\<rparr>) \<le> 128 \<and>
   S_buflen (snd (tinyblake_blake2b_update (zero_state\<lparr>S_buflen := 128\<rparr>) (Some [1, 2, 3]) 3)) \<le> 128 \<and>
   fst (tinyblake_blake2b_update (zero_state\<lparr>S_buflen := 128\<rparr>) (Some [1, 2, 3]) 3) = 0 \<and>
   0 < S_buflen (snd (tinyblake_blake2b_update (zero_state\<lparr>S_buflen := 128\<rparr>) (Some [1, 2, 3]) 3)) \<and>
   S_h (snd (tinyblake_blake2b_update (zero_state\<lparr>S_buflen := 128\<rparr>) (Some [1, 2, 3]) 3)) =
     get_compress (replicate 8 0) (replicate 128 0) 128 0 False \<and>
   S_t0 (snd (tinyblake_blake2b_update (zero_state\<lparr>S_buflen := 128\<rparr>) (Some [1, 2, 3]) 3)) = 128 \<and>
   S_t1 (snd (tinyblake_blake2b_update (zero_state\<lparr>S_buflen := 128\<rparr>) (Some [1, 2, 3]) 3)) = 0 \<and>
   S_buflen (snd (tinyblake_blake2b_update (zero_state\<lparr>S_buflen := 128\<rparr>) (Some [1, 2, 3]) 3)) = 3"
proof -
  let ?S = "zero_state\<lparr>S_buflen := 128\<rparr>"
  let ?U = "tinyblake_blake2b_update ?S (Some [1, 2, 3]) 3"
  have h: "S_buflen ?S \<le> 128" by simp
  have p1: "S_buflen ?S = 128 \<and> (0::nat) < 3" by simp
  have p2: "S_buflen ?S = 128 \<and> (0::nat) < 3 \<and> (3::nat) \<le> 128" by simp
  from buflen_at_most_128[OF h, of 1 None 0 None "Some [1, 2, 3]" 3 None 0 "[1, 2, 3]"] p1 p2
  have raw: "S_buflen (snd ?U) \<le> 128 \<and> fst ?U = 0 \<and> 0 < S_buflen (snd ?U) \<and>
      S_h (snd ?U) = get_compress (S_h ?S) (S_buf ?S) (S_t0 ?S + 128)
                       (if S_t0 ?S + 128 < 128 then S_t1 ?S + 1 else S_t1 ?S) False \<and>
      S_t0 (snd ?U) = S_t0 ?S + 128 \<and>
      S_t1 (snd ?U) = (if S_t0 ?S + 128 < 128 then S_t1 ?S + 1 else S_t1 ?S) \<and>
      S_buflen (snd ?U) = 3"
    by blast
  then show ?thesis using h by simp
qed

text \<open>
  The claim as the specification states it fails: after \<open>init(64)\<close> and an update with
  exactly 128 bytes the buffer is full, and the next operation may be an update, which
  succeeds.
\<close>

theorem buflen_full_before_update_counterexample:
  "S_buflen (snd (tinyblake_blake2b_update (snd (tinyblake_blake2b_init uninit_state 64))
       (Some (replicate 128 0)) 128)) = 128 \<and>
   fst (tinyblake_blake2b_update
       (snd (tinyblake_blake2b_update (snd (tinyblake_blake2b_init uninit_state 64))
          (Some (replicate 128 0)) 128))
       (Some [0]) 1) = 0"
  by (simp add: init_ok update_into_empty_buffer update_rc)

section \<open>Operations on a consumed state\<close>

lemma final_ok:
  assumes "unat (S_outlen S) \<le> n"
  shows "fst (tinyblake_blake2b_final S (Some obuf) n) = 0 \<and>
         fst (snd (tinyblake_blake2b_final S (Some obuf) n)) = zero_state"
  using assms by (simp add: tinyblake_blake2b_final_def Let_def)

lemma final_null_out:
  "tinyblake_blake2b_final S None m = (- 1, S, None)"
  by (simp add: tinyblake_blake2b_final_def)

lemma final_on_zero_state:
  "tinyblake_blake2b_final zero_state (Some obuf) m = (0, zero_state, Some obuf)"
  by (simp add: tinyblake_blake2b_final_def Let_def memcpy_at_def)

text \<open>
  Claim C6, as the code has it. A successful final leaves the state all-zero. There is
  no consumed-state check: on that state an update with a non-null input returns
  success. A final on it with a null output pointer returns \<open>-1\<close>.
\<close>

theorem operations_after_final:
  assumes "tinyblake_blake2b_final S out n = (0, S', out')"
  shows "S' = zero_state \<and>
         fst (tinyblake_blake2b_update S' (Some pin) inlen) = 0 \<and>
         tinyblake_blake2b_final S' None m = (- 1, S', None)"
proof -
  from final_fields[OF assms] have z: "S' = zero_state" by auto
  show ?thesis
    unfolding z by (simp add: update_rc final_null_out)
qed

theorem operations_after_final_witness:
  "tinyblake_blake2b_final (zero_state\<lparr>S_outlen := 1\<rparr>) (Some [0]) 1 =
     (0, zero_state, snd (snd (tinyblake_blake2b_final (zero_state\<lparr>S_outlen := 1\<rparr>) (Some [0]) 1))) \<and>
   fst (tinyblake_blake2b_update zero_state (Some [0x61]) 1) = 0 \<and>
   tinyblake_blake2b_final zero_state None 1 = (- 1, zero_state, None)"
proof -
  have h: "tinyblake_blake2b_final (zero_state\<lparr>S_outlen := 1\<rparr>) (Some [0]) 1 =
     (0, zero_state, snd (snd (tinyblake_blake2b_final (zero_state\<lparr>S_outlen := 1\<rparr>) (Some [0]) 1)))"
    by (simp add: tinyblake_blake2b_final_def Let_def)
  from operations_after_final[OF h, of "[0x61]" 1 1] h show ?thesis
    by simp
qed

text \<open>
  The claim as the specification states it fails: after \<open>init(64)\<close> and a successful
  final, an update with one byte returns success.
\<close>

theorem update_after_final_counterexample:
  "fst (tinyblake_blake2b_final (snd (tinyblake_blake2b_init uninit_state 64))
          (Some (replicate 64 0)) 64) = 0 \<and>
   fst (tinyblake_blake2b_update
          (fst (snd (tinyblake_blake2b_final (snd (tinyblake_blake2b_init uninit_state 64))
             (Some (replicate 64 0)) 64)))
          (Some [0x61]) 1) = 0"
proof -
  have "unat (S_outlen (snd (tinyblake_blake2b_init uninit_state 64))) \<le> 64"
    by (simp add: init_ok)
  from final_ok[OF this, of "replicate 64 0"] show ?thesis
    by (simp add: update_rc)
qed

section \<open>Streaming equals one-shot\<close>

declare absorb.simps [simp del]

lemma message_words_take128:
  assumes "128 \<le> length xs"
  shows "map (\<lambda>i. load_le64 (drop (i * 8) (take 128 xs))) [0..<16] =
         map (\<lambda>i. load_le64 (drop (i * 8) xs)) [0..<16]"
proof (rule map_cong[OF refl])
  fix i assume "i \<in> set [0..<16]"
  then have i: "i * 8 + 7 < 128" by simp
  then have "i * 8 \<le> length (take 128 xs)" "i * 8 \<le> length xs"
    using assms by simp_all
  then show "load_le64 (drop (i * 8) (take 128 xs)) = load_le64 (drop (i * 8) xs)"
    using i by (simp add: load_le64_def)
qed

lemma compress_take128:
  assumes "128 \<le> length xs"
  shows "get_compress h (take 128 xs) t0 t1 l = get_compress h xs t0 t1 l"
  unfolding get_compress_def blake2b_compress_portable_def
  by (simp only: message_words_take128[OF assms])

lemma compress_block_take128:
  assumes "128 \<le> length xs"
  shows "compress_block S (take 128 xs) l = compress_block S xs l"
  by (simp add: compress_block_def compress_take128[OF assms])

lemma core_fields [simp]:
  "S_h (core S) = S_h S" "S_t0 (core S) = S_t0 S" "S_t1 (core S) = S_t1 S"
  "S_outlen (core S) = S_outlen S" "S_buf (core S) = []" "S_buflen (core S) = 0"
  by (simp_all add: core_def)

lemma core_advance: "core (advance_counter S n) = advance_counter (core S) n"
  by (simp add: core_def advance_counter_def Let_def)

lemma core_compress: "core (compress_block S b l) = compress_block (core S) b l"
  by (simp add: core_def compress_block_def)

lemma core_core [simp]: "core (core S) = core S"
  by (simp add: core_def)

lemma core_upd [simp]: "core (S\<lparr>S_buf := b, S_buflen := n\<rparr>) = core S"
  "core (S\<lparr>S_buf := b\<rparr>) = core S" "core (S\<lparr>S_buflen := n\<rparr>) = core S"
  by (simp_all add: core_def)

lemma absorb_append:
  "absorb S (xs @ ys) = (case absorb S xs of (S', r) \<Rightarrow> absorb S' (r @ ys))"
proof (induction S xs rule: absorb.induct)
  case (1 S xs)
  show ?case
  proof (cases "length xs > 128")
    case True
    then have "absorb S (xs @ ys) =
        absorb (compress_block (advance_counter S 128) (take 128 xs) False) (drop 128 xs @ ys)"
      by (simp add: absorb.simps[of S "xs @ ys"])
    also have "\<dots> = (case absorb (compress_block (advance_counter S 128) (take 128 xs) False)
                         (drop 128 xs) of (S', r) \<Rightarrow> absorb S' (r @ ys))"
      by (rule "1.IH"[OF True])
    also have "\<dots> = (case absorb S xs of (S', r) \<Rightarrow> absorb S' (r @ ys))"
      using True by (simp add: absorb.simps[of S xs])
    finally show ?thesis .
  next
    case False
    then show ?thesis by (simp add: absorb.simps[of S xs])
  qed
qed

lemma absorb_short: "length xs \<le> 128 \<Longrightarrow> absorb S xs = (S, xs)"
  by (simp add: absorb.simps[of S xs])

lemma absorb_rest_le: "absorb S xs = (S', r) \<Longrightarrow> length r \<le> 128 \<and> (xs \<noteq> [] \<longrightarrow> r \<noteq> [])"
proof (induction S xs rule: absorb.induct)
  case (1 S xs)
  show ?case
  proof (cases "length xs > 128")
    case True
    with "1.prems" have
      "absorb (compress_block (advance_counter S 128) (take 128 xs) False) (drop 128 xs) = (S', r)"
      by (simp add: absorb.simps[of S xs])
    from "1.IH"[OF True this] True show ?thesis by auto
  next
    case False
    with "1.prems" show ?thesis by (auto simp: absorb.simps[of S xs])
  qed
qed

lemma absorb_outlen: "absorb S xs = (S', r) \<Longrightarrow> S_outlen S' = S_outlen S \<and> S_buf S' = S_buf S \<and> S_buflen S' = S_buflen S"
proof (induction S xs rule: absorb.induct)
  case (1 S xs)
  show ?case
  proof (cases "length xs > 128")
    case True
    with "1.prems" have
      "absorb (compress_block (advance_counter S 128) (take 128 xs) False) (drop 128 xs) = (S', r)"
      by (simp add: absorb.simps[of S xs])
    from "1.IH"[OF True this] show ?thesis by simp
  next
    case False
    with "1.prems" show ?thesis by (auto simp: absorb.simps[of S xs])
  qed
qed

lemma update_blocks_absorb:
  "update_blocks S pin (length pin) = (S', pin', n') \<Longrightarrow>
     n' = length pin' \<and> absorb (core S) pin = (core S', pin')"
proof (induction S pin "length pin" arbitrary: S' pin' n' rule: update_blocks.induct)
  case (1 S pin)
  show ?case
  proof (cases "length pin > 128")
    case True
    let ?S = "compress_block (advance_counter S 128) pin False"
    from True "1.prems" have u: "update_blocks ?S (drop 128 pin) (length (drop 128 pin)) = (S', pin', n')"
      by (simp add: update_blocks.simps[of S pin "length pin"] Let_def)
    have "n' = length pin' \<and> absorb (core ?S) (drop 128 pin) = (core S', pin')"
      using "1.hyps"[OF True refl refl _ u] by simp
    moreover have "core ?S = compress_block (advance_counter (core S) 128) (take 128 pin) False"
      using True by (simp add: core_compress core_advance compress_block_take128)
    ultimately show ?thesis
      using True by (simp add: absorb.simps[of "core S" pin])
  next
    case False
    with "1.prems" show ?thesis
      by (auto simp: update_blocks.simps[of S pin "length pin"] absorb_short)
  qed
qed



lemma update_rest_absorb:
  assumes "pin \<noteq> []"
  shows "\<exists>S' r. absorb (core S) pin = (core S', r) \<and> r \<noteq> [] \<and> length r \<le> 128 \<and>
           update_rest S pin (length pin) = S'\<lparr>S_buf := memcpy_at (S_buf S) 0 r (length r),
                                                   S_buflen := length r\<rparr>"
proof -
  obtain S' pin' n' where u: "update_blocks S pin (length pin) = (S', pin', n')"
    by (cases "update_blocks S pin (length pin)") auto
  from update_blocks_absorb[OF u] have n: "n' = length pin'"
    and a: "absorb (core S) pin = (core S', pin')" by simp_all
  from absorb_rest_le[OF a] assms have r: "pin' \<noteq> []" "length pin' \<le> 128" by simp_all
  from update_blocks_fields[OF u] have "S_buf S' = S_buf S" by simp
  with r n have "update_rest S pin (length pin) =
      S'\<lparr>S_buf := memcpy_at (S_buf S) 0 pin' (length pin'), S_buflen := length pin'\<rparr>"
    by (simp add: update_rest_def u)
  with a r show ?thesis by blast
qed

lemma memcpy_at_length:
  "off + n \<le> length dst \<Longrightarrow> n \<le> length src \<Longrightarrow> length (memcpy_at dst off src n) = length dst"
  by (simp add: memcpy_at_def)

lemma memcpy_at_take:
  "off \<le> length dst \<Longrightarrow> n \<le> length src \<Longrightarrow>
     take (off + n) (memcpy_at dst off src n) = take off dst @ take n src"
  by (simp add: memcpy_at_def)


lemma update_absorb:
  assumes "boundary S"
  shows "\<exists>S'. tinyblake_blake2b_update S (Some data) (length data) = (0, S') \<and> boundary S' \<and>
              absorb (core S) (pending S @ data) = (core S', pending S')"
proof (cases "data = []")
  case True
  with assms show ?thesis
    by (simp add: tinyblake_blake2b_update_def boundary_def absorb_short pending_def)
next
  case False
  then have pos: "0 < length data" by simp
  from assms have b: "S_buflen S \<le> 128" "length (S_buf S) = 128"
    by (simp_all add: boundary_def)
  have lp: "length (pending S) = S_buflen S"
    using b by (simp add: pending_def)
  show ?thesis
  proof (cases "S_buflen S > 0")
    case False
    then have z: "S_buflen S = 0" by simp
    from update_rest_absorb[OF \<open>data \<noteq> []\<close>, of S] obtain S' r where
      a: "absorb (core S) data = (core S', r)" and r: "r \<noteq> []" "length r \<le> 128" and
      u: "update_rest S data (length data) =
            S'\<lparr>S_buf := memcpy_at (S_buf S) 0 r (length r), S_buflen := length r\<rparr>"
      by blast
    let ?S = "S'\<lparr>S_buf := memcpy_at (S_buf S) 0 r (length r), S_buflen := length r\<rparr>"
    have "tinyblake_blake2b_update S (Some data) (length data) = (0, ?S)"
      using z pos by (simp add: tinyblake_blake2b_update_def u)
    moreover have "boundary ?S"
      using r b by (simp add: boundary_def memcpy_at_length)
    moreover have "pending ?S = r"
      using r b memcpy_at_take[of 0 "S_buf S" "length r" r] by (simp add: pending_def)
    moreover have "pending S = []"
      using z by (simp add: pending_def)
    ultimately show ?thesis using a by simp
  next
    case True
    let ?left = "128 - S_buflen S"
    show ?thesis
    proof (cases "length data > ?left")
      case False
      let ?S = "S\<lparr>S_buf := memcpy_at (S_buf S) (S_buflen S) data (length data),
                     S_buflen := S_buflen S + length data\<rparr>"
      have "tinyblake_blake2b_update S (Some data) (length data) = (0, ?S)"
        using True False pos b by (simp add: tinyblake_blake2b_update_def Let_def)
      moreover have "boundary ?S"
        using False b by (simp add: boundary_def memcpy_at_length)
      moreover have "pending ?S = pending S @ data"
        using False b memcpy_at_take[of "S_buflen S" "S_buf S" "length data" data]
        by (simp add: pending_def)
      moreover have "absorb (core S) (pending S @ data) = (core S, pending S @ data)"
        using False b lp by (simp add: absorb_short)
      ultimately show ?thesis by simp
    next
      case gt: True
      let ?buf = "memcpy_at (S_buf S) (S_buflen S) data ?left"
      let ?S1 = "(compress_block (advance_counter (S\<lparr>S_buf := ?buf\<rparr>) 128) ?buf False)
                   \<lparr>S_buflen := 0\<rparr>"
      have buf: "?buf = pending S @ take ?left data"
        using gt b by (simp add: memcpy_at_def pending_def)
      have lbuf: "length ?buf = 128"
        using gt b by (simp add: memcpy_at_length)
      have rest: "drop ?left data \<noteq> []"
        using gt by simp
      from update_rest_absorb[OF rest, of ?S1] obtain S' r where
        a: "absorb (core ?S1) (drop ?left data) = (core S', r)" and
        r: "r \<noteq> []" "length r \<le> 128" and
        u: "update_rest ?S1 (drop ?left data) (length (drop ?left data)) =
              S'\<lparr>S_buf := memcpy_at (S_buf ?S1) 0 r (length r), S_buflen := length r\<rparr>"
        by blast
      let ?S = "S'\<lparr>S_buf := memcpy_at (S_buf ?S1) 0 r (length r), S_buflen := length r\<rparr>"
      have "tinyblake_blake2b_update S (Some data) (length data) = (0, ?S)"
        using True gt pos b u by (simp add: tinyblake_blake2b_update_def Let_def)
      moreover have "boundary ?S"
        using r lbuf by (simp add: boundary_def memcpy_at_length)
      moreover have "pending ?S = r"
        using r lbuf memcpy_at_take[of 0 "S_buf ?S1" "length r" r] by (simp add: pending_def)
      moreover have "absorb (core S) (pending S @ data) = (core S', r)"
      proof -
        have long: "length (pending S @ data) > 128"
          using gt lp b by simp
        have t: "take 128 (pending S @ data) = ?buf"
          using lp b gt by (simp add: buf)
        have d: "drop 128 (pending S @ data) = drop ?left data"
          using lp b by simp
        have c: "core ?S1 = compress_block (advance_counter (core S) 128) ?buf False"
          by (simp add: core_compress core_advance)
        have "absorb (core S) (pending S @ data) =
                absorb (compress_block (advance_counter (core S) 128)
                          (take 128 (pending S @ data)) False) (drop 128 (pending S @ data))"
          using long by (simp only: absorb.simps[of "core S" "pending S @ data"] if_True)
        also have "\<dots> = absorb (core ?S1) (drop ?left data)"
          by (simp only: t d c)
        also note a
        finally show ?thesis .
      qed
      ultimately show ?thesis by simp
    qed
  qed
qed

lemma final_depends_on_core_pending:
  assumes "boundary S"
  shows "tinyblake_blake2b_final S (Some obuf) n =
    (if n < unat (S_outlen S) then (- 1, S, Some obuf)
     else (0, zero_state,
       Some (memcpy_at obuf 0
         (concat (map (\<lambda>i. store_le64
            (S_h (compress_block (advance_counter (core S) (of_nat (length (pending S))))
                   (pending S @ replicate (128 - length (pending S)) 0) True) ! i)) [0..<8]))
         (unat (S_outlen S)))))"
proof -
  from assms have b: "S_buflen S \<le> 128" "length (S_buf S) = 128"
    by (simp_all add: boundary_def)
  have lp: "length (pending S) = S_buflen S"
    using b by (simp add: pending_def)
  show ?thesis
  proof (cases "S_buflen S < 128")
    case True
    have "memset0_at (S_buf S) (S_buflen S) (128 - S_buflen S) =
          pending S @ replicate (128 - S_buflen S) 0"
      using b by (simp add: memset0_at_def pending_def)
    with True show ?thesis
      by (simp add: tinyblake_blake2b_final_def Let_def lp compress_block_def
          advance_counter_def core_def)
  next
    case False
    with b have "S_buf S = pending S @ replicate (128 - S_buflen S) 0"
      by (simp add: pending_def)
    with False show ?thesis
      by (simp add: tinyblake_blake2b_final_def Let_def lp compress_block_def
          advance_counter_def core_def)
  qed
qed

lemma final_cong:
  assumes "boundary S" "boundary S2" "core S = core S2" "pending S = pending S2"
  shows "(case tinyblake_blake2b_final S out n of (rc, S', out') \<Rightarrow> (rc, out')) =
         (case tinyblake_blake2b_final S2 out n of (rc, S', out') \<Rightarrow> (rc, out'))"
proof (cases out)
  case None
  then show ?thesis by (simp add: final_null_out)
next
  case (Some obuf)
  have "S_outlen (core S) = S_outlen (core S2)"
    using assms(3) by simp
  then have "S_outlen S = S_outlen S2"
    by simp
  then show ?thesis
    unfolding Some final_depends_on_core_pending[OF assms(1)]
      final_depends_on_core_pending[OF assms(2)] assms(3) assms(4)
    by simp
qed

lemma update_all_absorb:
  assumes "boundary S"
  shows "\<exists>S'. update_all S cs = (0, S') \<and> boundary S' \<and>
              absorb (core S) (pending S @ concat cs) = (core S', pending S')"
  using assms
proof (induction cs arbitrary: S)
  case Nil
  then show ?case
    by (simp add: absorb_short boundary_def pending_def)
next
  case (Cons c cs)
  from update_absorb[OF Cons.prems, of c] obtain S1 where
    u: "tinyblake_blake2b_update S (Some c) (length c) = (0, S1)" and b1: "boundary S1" and
    a1: "absorb (core S) (pending S @ c) = (core S1, pending S1)"
    by blast
  from Cons.IH[OF b1] obtain S' where
    ua: "update_all S1 cs = (0, S')" and b': "boundary S'" and
    a': "absorb (core S1) (pending S1 @ concat cs) = (core S', pending S')"
    by blast
  have "absorb (core S) (pending S @ concat (c # cs)) =
        absorb (core S) ((pending S @ c) @ concat cs)"
    by simp
  also have "\<dots> = absorb (core S1) (pending S1 @ concat cs)"
    by (simp only: absorb_append[of "core S" "pending S @ c" "concat cs"] a1 prod.case)
  finally have "absorb (core S) (pending S @ concat (c # cs)) = (core S', pending S')"
    using a' by simp
  with u ua b' show ?case by simp
qed

lemma init_boundary:
  assumes "0 < outlen" "outlen \<le> 64"
  shows "boundary (snd (tinyblake_blake2b_init S outlen))"
    and "pending (snd (tinyblake_blake2b_init S outlen)) = []"
    and "S_outlen (snd (tinyblake_blake2b_init S outlen)) = of_nat outlen"
    and "S_t0 (snd (tinyblake_blake2b_init S outlen)) = 0"
    and "S_t1 (snd (tinyblake_blake2b_init S outlen)) = 0"
  by (simp_all add: init_ok[OF assms] boundary_def pending_def)

text \<open>
  Claim C3. For every message, every output length and every way of cutting the
  message into chunks (empty chunks, chunks across or ending on a 128-byte boundary),
  the streaming sequence init, update per chunk, final returns the same return code and
  leaves the same bytes in the output buffer as the one-shot call on the whole message;
  for an output length in 1..64 and a non-null output pointer both succeed.
\<close>

theorem streaming_equals_oneshot:
  "blake2b_streaming S out outlen chunks =
     tinyblake_blake2b out outlen (Some (concat chunks)) (length (concat chunks)) None 0 \<and>
   (0 < outlen \<and> outlen \<le> 64 \<and> out \<noteq> None \<longrightarrow>
      fst (blake2b_streaming S out outlen chunks) = 0)"
proof (cases "outlen = 0 \<or> outlen > 64")
  case True
  then show ?thesis
    by (auto simp: blake2b_streaming_def tinyblake_blake2b_def init_fail)
next
  case False
  then have ol: "0 < outlen" "outlen \<le> 64" by simp_all
  let ?M = "concat chunks"
  obtain S1 where i1: "tinyblake_blake2b_init S outlen = (0, S1)"
    using init_ok[OF ol] by simp
  have i2: "tinyblake_blake2b_init uninit_state outlen = (0, S1)"
    using init_overwrites[of S outlen uninit_state] i1 by simp
  from init_boundary[OF ol, of S] i1 have b1: "boundary S1" and p1: "pending S1 = []"
    and o1: "S_outlen S1 = of_nat outlen" by simp_all
  from update_all_absorb[OF b1, of chunks] obtain S2 where
    u2: "update_all S1 chunks = (0, S2)" and b2: "boundary S2" and
    a2: "absorb (core S1) ?M = (core S2, pending S2)"
    using p1 by auto
  from update_absorb[OF b1, of ?M] obtain S3 where
    u3: "tinyblake_blake2b_update S1 (Some ?M) (length ?M) = (0, S3)" and b3: "boundary S3" and
    a3: "absorb (core S1) ?M = (core S3, pending S3)"
    using p1 by auto
  from a2 a3 have eq: "core S2 = core S3" "pending S2 = pending S3" by simp_all
  have s: "blake2b_streaming S out outlen chunks =
      (case tinyblake_blake2b_final S2 out outlen of (rc, S', out') \<Rightarrow> (rc, out'))"
    by (simp add: blake2b_streaming_def i1 u2)
  have t: "tinyblake_blake2b out outlen (Some ?M) (length ?M) None 0 =
      (case tinyblake_blake2b_final S3 out outlen of (rc, S', out') \<Rightarrow> (rc, out'))"
    by (simp add: tinyblake_blake2b_def i2 u3)
  have same: "blake2b_streaming S out outlen chunks =
      tinyblake_blake2b out outlen (Some ?M) (length ?M) None 0"
    unfolding s t by (rule final_cong[OF b2 b3 eq])
  have "S_outlen (core S2) = S_outlen (core S1)"
    using absorb_outlen[OF a2] by simp
  then have "S_outlen S2 = of_nat outlen"
    using o1 by simp
  then have le: "unat (S_outlen S2) \<le> outlen"
    using of_nat_outlen(3)[OF ol] by simp
  have "fst (blake2b_streaming S out outlen chunks) = 0" if "out \<noteq> None"
  proof -
    from that obtain obuf where "out = Some obuf" by auto
    with final_ok[OF le, of obuf] have "fst (tinyblake_blake2b_final S2 out outlen) = 0"
      by simp
    then show ?thesis
      unfolding s by (cases "tinyblake_blake2b_final S2 out outlen") simp
  qed
  with same show ?thesis by simp
qed

theorem streaming_equals_oneshot_witness:
  "blake2b_streaming zero_state (Some (replicate 64 0)) 64 [[], [0x61], [], [0x62, 0x63], []] =
     tinyblake_blake2b (Some (replicate 64 0)) 64
       (Some (concat [[], [0x61], [], [0x62, 0x63], []]))
       (length (concat [[], [0x61], [], [0x62, 0x63 :: u8], []])) None 0 \<and>
   fst (blake2b_streaming zero_state (Some (replicate 64 0)) 64 [[], [0x61], [], [0x62, 0x63], []]) = 0"
proof -
  have h: "0 < (64::nat) \<and> (64::nat) \<le> 64 \<and> Some (replicate 64 (0::u8)) \<noteq> None"
    by simp
  from streaming_equals_oneshot[of zero_state "Some (replicate 64 0)" 64
      "[[], [0x61], [], [0x62, 0x63], []]"] h
  show ?thesis by blast
qed

section \<open>The byte counter\<close>

lemma counter128_core [simp]: "counter128 (core S) = counter128 S"
  by (simp add: counter128_def)

lemma counter128_compress [simp]: "counter128 (compress_block S b l) = counter128 S"
  by (simp add: counter128_def)















section \<open>Return codes of HMAC and PBKDF2\<close>

lemma oneshot_unkeyed_ok:
  assumes "0 < n" "n \<le> 64"
  shows "fst (tinyblake_blake2b (Some obuf) n (Some d) len None 0) = 0"
proof -
  obtain S1 where i: "tinyblake_blake2b_init uninit_state n = (0, S1)"
    using init_ok[OF assms] by simp
  from init_boundary[OF assms, of uninit_state] i
  have b: "boundary S1" and o: "S_outlen S1 = of_nat n" by simp_all
  obtain rc S2 where u: "tinyblake_blake2b_update S1 (Some d) len = (rc, S2)"
    by (cases "tinyblake_blake2b_update S1 (Some d) len") auto
  have "rc = 0"
    using update_rc[of S1 "Some d" len] b u by (simp add: boundary_def)
  moreover have "S_outlen S2 = of_nat n"
    using update_outlen[of S1 "Some d" len] u o by simp
  then have "unat (S_outlen S2) \<le> n"
    using of_nat_outlen(3)[OF assms] by simp
  from final_ok[OF this, of obuf] have "fst (tinyblake_blake2b_final S2 (Some obuf) n) = 0"
    by simp
  ultimately show ?thesis
    by (simp add: tinyblake_blake2b_def i u case_prod_beta)
qed

lemma derive_pads_ok: "fst (derive_pads k keylen) = 0"
proof (cases "keylen > 128")
  case True
  have "fst (tinyblake_blake2b (Some (replicate 128 0)) 64 (Some k) keylen None 0) = 0"
    by (rule oneshot_unkeyed_ok) simp_all
  with True show ?thesis
    by (simp add: derive_pads_def Let_def case_prod_beta)
next
  case False
  then show ?thesis
    by (simp add: derive_pads_def Let_def)
qed

lemma hmac_init_fail:
  "key = None \<or> keylen = 0 \<Longrightarrow> tinyblake_hmac_init st key keylen = (- 1, st)"
  by (auto simp: tinyblake_hmac_init_def split: option.split)

lemma hmac_init_ok:
  assumes "0 < keylen"
  shows "\<exists>s. tinyblake_hmac_init st (Some k) keylen = (0, s) \<and> good_hmac s"
proof -
  obtain ipad opad where d: "derive_pads k keylen = (0, ipad, opad)"
    using derive_pads_ok[of k keylen] by (cases "derive_pads k keylen") auto
  obtain S1 where i1: "tinyblake_blake2b_init (inner st) 64 = (0, S1)"
    using init_ok[of 64 "inner st"] by simp
  from init_boundary[of 64 "inner st"] i1 have b1: "boundary S1" and o1: "S_outlen S1 = 64"
    by simp_all
  obtain rc2 S2 where u1: "tinyblake_blake2b_update S1 (Some ipad) 128 = (rc2, S2)"
    by (cases "tinyblake_blake2b_update S1 (Some ipad) 128") auto
  have r2: "rc2 = 0"
    using update_rc[of S1 "Some ipad" 128] b1 u1 by (simp add: boundary_def)
  have g2: "good_state S2"
    using update_outlen[of S1 "Some ipad" 128] update_buflen[of S1 "Some ipad" 128] u1 o1 b1
    by (simp add: good_state_def boundary_def)
  obtain S3 where i3: "tinyblake_blake2b_init (outer st) 64 = (0, S3)"
    using init_ok[of 64 "outer st"] by simp
  from init_boundary[of 64 "outer st"] i3 have b3: "boundary S3" and o3: "S_outlen S3 = 64"
    by simp_all
  obtain rc4 S4 where u3: "tinyblake_blake2b_update S3 (Some opad) 128 = (rc4, S4)"
    by (cases "tinyblake_blake2b_update S3 (Some opad) 128") auto
  have r4: "rc4 = 0"
    using update_rc[of S3 "Some opad" 128] b3 u3 by (simp add: boundary_def)
  have g4: "good_state S4"
    using update_outlen[of S3 "Some opad" 128] update_buflen[of S3 "Some opad" 128] u3 o3 b3
    by (simp add: good_state_def boundary_def)
  have "tinyblake_hmac_init st (Some k) keylen = (0, st\<lparr>inner := S2, outer := S4\<rparr>)"
    using assms by (simp add: tinyblake_hmac_init_def d i1 u1 r2 i3 u3 r4)
  moreover have "good_hmac (st\<lparr>inner := S2, outer := S4\<rparr>)"
    using g2 g4 by (simp add: good_hmac_def)
  ultimately show ?thesis by blast
qed

lemma hmac_update_good:
  assumes "good_hmac s"
  shows "fst (tinyblake_hmac_update s inp n) = (if n = 0 then 0 else if inp = None then - 1 else 0)"
    and "good_hmac (snd (tinyblake_hmac_update s inp n))"
proof -
  from assms have g: "S_buflen (inner s) \<le> 128" "S_outlen (inner s) = 64" "good_state (outer s)"
    by (simp_all add: good_hmac_def good_state_def)
  show "fst (tinyblake_hmac_update s inp n) = (if n = 0 then 0 else if inp = None then - 1 else 0)"
    using update_rc[of "inner s" inp n] g
    by (simp add: tinyblake_hmac_update_def case_prod_beta)
  show "good_hmac (snd (tinyblake_hmac_update s inp n))"
    using update_outlen[of "inner s" inp n] update_buflen[of "inner s" inp n] g
    by (simp add: tinyblake_hmac_update_def good_hmac_def good_state_def case_prod_beta)
qed

lemma final_Some:
  "unat (S_outlen S) \<le> n \<Longrightarrow> \<exists>w. tinyblake_blake2b_final S (Some obuf) n = (0, zero_state, Some w)"
  by (simp add: tinyblake_blake2b_final_def Let_def)

lemma hmac_final_ok:
  assumes "good_hmac s" "64 \<le> n"
  shows "\<exists>w. tinyblake_hmac_final s (Some obuf) n = (0, zero_hmac_state, Some w)"
proof -
  from assms have g: "S_outlen (inner s) = 64" "S_buflen (outer s) \<le> 128" "S_outlen (outer s) = 64"
    by (simp_all add: good_hmac_def good_state_def)
  from final_Some[of "inner s" 64 "uninit_bytes 64"] g obtain ih where
    f1: "tinyblake_blake2b_final (inner s) (Some (uninit_bytes 64)) 64 = (0, zero_state, Some ih)"
    by auto
  obtain rc S2 where u: "tinyblake_blake2b_update (outer s) (Some ih) 64 = (rc, S2)"
    by (cases "tinyblake_blake2b_update (outer s) (Some ih) 64") auto
  have r: "rc = 0"
    using update_rc[of "outer s" "Some ih" 64] g u by simp
  have "S_outlen S2 = 64"
    using update_outlen[of "outer s" "Some ih" 64] u g by simp
  then have "unat (S_outlen S2) \<le> n"
    using assms(2) by simp
  from final_Some[OF this, of obuf] obtain w where
    f2: "tinyblake_blake2b_final S2 (Some obuf) n = (0, zero_state, Some w)" by auto
  have "tinyblake_hmac_final s (Some obuf) n = (0, zero_hmac_state, Some w)"
    using assms(2) by (simp add: tinyblake_hmac_final_def f1 u r f2)
  then show ?thesis by blast
qed

declare pbkdf2_rounds.simps [simp del]
declare pbkdf2_blocks.simps [simp del]

lemma pbkdf2_rounds_ok:
  assumes "0 < passlen"
  shows "fst (pbkdf2_rounds (Some p) passlen rounds j u t) = 0"
  using assms
proof (induction "Some p" passlen rounds j u t rule: pbkdf2_rounds.induct)
  case (1 passlen rounds j u t)
  show ?case
  proof (cases "j < rounds")
    case False
    then show ?thesis
      by (simp add: pbkdf2_rounds.simps[of "Some p" passlen rounds j u t])
  next
    case True
    from hmac_init_ok[OF "1.prems", of uninit_hmac_state p] obtain hm where
      init: "tinyblake_hmac_init uninit_hmac_state (Some p) passlen = (0, hm)" and g: "good_hmac hm"
      by blast
    obtain rc2 hm2 where upd: "tinyblake_hmac_update hm (Some u) 64 = (rc2, hm2)"
      by (cases "tinyblake_hmac_update hm (Some u) 64") auto
    from hmac_update_good[OF g, of "Some u" 64] upd have r2: "rc2 = 0" and g2: "good_hmac hm2"
      by simp_all
    from hmac_final_ok[OF g2, of 64 u] obtain w where
      fin: "tinyblake_hmac_final hm2 (Some u) 64 = (0, zero_hmac_state, Some w)"
      by auto
    have IH: "fst (pbkdf2_rounds (Some p) passlen rounds (j + 1) w
                (map (\<lambda>k. t ! k XOR w ! k) [0..<64])) = 0"
      using "1.hyps"[OF True init[symmetric] _ upd[symmetric] _ fin[symmetric] refl _ refl refl] r2
        "1.prems"
      by simp
    show ?thesis
      using True IH
      by (simp add: pbkdf2_rounds.simps[of "Some p" passlen rounds j u t] init upd r2 fin Let_def)
  qed
qed


lemma pbkdf2_blocks_fail_password:
  assumes "0 < dk_remaining" "password = None \<or> passlen = 0"
  shows "pbkdf2_blocks obuf off dk_remaining block_idx password passlen salt saltlen rounds =
           (- 1, obuf)"
  using assms hmac_init_fail[OF assms(2), of uninit_hmac_state]
  by (simp add: pbkdf2_blocks.simps[of obuf off dk_remaining block_idx password passlen salt
        saltlen rounds] Let_def)

lemma pbkdf2_blocks_fail_salt:
  assumes "0 < dk_remaining" "0 < passlen" "0 < saltlen"
  shows "pbkdf2_blocks obuf off dk_remaining block_idx (Some p) passlen None saltlen rounds =
           (- 1, obuf)"
proof -
  from hmac_init_ok[OF assms(2), of uninit_hmac_state p] obtain hm where
    init: "tinyblake_hmac_init uninit_hmac_state (Some p) passlen = (0, hm)" and g: "good_hmac hm"
    by blast
  from hmac_update_good(1)[OF g, of None saltlen] assms(3)
  have "fst (tinyblake_hmac_update hm None saltlen) \<noteq> 0" by simp
  then show ?thesis
    using assms(1)
    by (simp add: pbkdf2_blocks.simps[of obuf off dk_remaining block_idx "Some p" passlen None
          saltlen rounds] Let_def init case_prod_beta)
qed

lemma pbkdf2_blocks_ok:
  assumes "0 < passlen" "salt \<noteq> None \<or> saltlen = 0"
  shows "fst (pbkdf2_blocks obuf off dk_remaining block_idx (Some p) passlen salt saltlen rounds) = 0"
  using assms
proof (induction obuf off dk_remaining block_idx "Some p" passlen salt saltlen rounds
    rule: pbkdf2_blocks.induct)
  case (1 obuf off dk_remaining block_idx passlen salt saltlen rounds)
  show ?case
  proof (cases "dk_remaining > 0")
    case False
    then have "dk_remaining = 0" by simp
    then show ?thesis
      by (simp add: pbkdf2_blocks.simps[of obuf off 0 block_idx "Some p" passlen salt
            saltlen rounds])
  next
    case True
    let ?cplen = "if dk_remaining < HLEN then dk_remaining else HLEN"
    from hmac_init_ok[OF "1.prems"(1), of uninit_hmac_state p] obtain hm where
      init: "tinyblake_hmac_init uninit_hmac_state (Some p) passlen = (0, hm)" and g: "good_hmac hm"
      by blast
    obtain rc1 hm1 where upd1: "tinyblake_hmac_update hm salt saltlen = (rc1, hm1)"
      by (cases "tinyblake_hmac_update hm salt saltlen") auto
    from hmac_update_good[OF g, of salt saltlen] upd1 "1.prems"(2)
    have r1: "rc1 = 0" and g1: "good_hmac hm1"
      by auto
    obtain rc2 hm2 where
      upd2: "tinyblake_hmac_update hm1 (Some (store_be32 block_idx)) 4 = (rc2, hm2)"
      by (cases "tinyblake_hmac_update hm1 (Some (store_be32 block_idx)) 4") auto
    from hmac_update_good[OF g1, of "Some (store_be32 block_idx)" 4] upd2
    have r2: "rc2 = 0" and g2: "good_hmac hm2"
      by simp_all
    from hmac_final_ok[OF g2, of 64 "uninit_bytes 64"] obtain w where
      fin: "tinyblake_hmac_final hm2 (Some (uninit_bytes 64)) 64 = (0, zero_hmac_state, Some w)"
      by auto
    obtain rc5 u5 t5 where
      rnd: "pbkdf2_rounds (Some p) passlen rounds 1 w (memcpy_at (uninit_bytes 64) 0 w 64) =
              (rc5, u5, t5)"
      by (cases "pbkdf2_rounds (Some p) passlen rounds 1 w (memcpy_at (uninit_bytes 64) 0 w 64)")
         auto
    from pbkdf2_rounds_ok[OF "1.prems"(1), of p rounds 1 w "memcpy_at (uninit_bytes 64) 0 w 64"] rnd
    have r5: "rc5 = 0" by simp
    have IH: "fst (pbkdf2_blocks (memcpy_at obuf off t5 ?cplen) (off + ?cplen)
                (dk_remaining - ?cplen) (block_idx + 1) (Some p) passlen salt saltlen rounds) = 0"
    proof -
      have e: "w = (case Some w of None \<Rightarrow> uninit_bytes 64 | Some w \<Rightarrow> w)" by simp
      show ?thesis
        using "1.hyps"[OF True refl init[symmetric] _ upd1[symmetric] _ upd2[symmetric] _
            fin[symmetric] refl _ e refl rnd[symmetric] refl _ refl "1.prems"] r1 r2 r5
        by simp
    qed
    show ?thesis
      using True IH
      by (simp add: pbkdf2_blocks.simps[of obuf off dk_remaining block_idx "Some p" passlen salt
            saltlen rounds] init upd1 r1 upd2 r2 fin rnd r5 Let_def)
  qed
qed


lemma hmac_init_rc:
  "fst (tinyblake_hmac_init st password passlen) \<noteq> 0 \<longleftrightarrow> password = None \<or> passlen = 0"
proof (cases "password = None \<or> passlen = 0")
  case True
  then show ?thesis by (simp add: hmac_init_fail)
next
  case False
  then obtain p where p: "password = Some p" "0 < passlen" by auto
  from hmac_init_ok[OF p(2), of st p] p show ?thesis by auto
qed

text \<open>
  Claim C8, as the code has it. With a non-null output pointer \<open>tinyblake_pbkdf2\<close> fails
  exactly when \<open>outlen = 0\<close>, or \<open>rounds = 0\<close>, or \<open>outlen > (2^32 - 1) * 64\<close>, or the HMAC
  initialisation fails (which is exactly a null password or \<open>passlen = 0\<close>), or the salt
  pointer is null while \<open>saltlen\<close> is not 0. Every failure returns \<open>-1\<close> and leaves the
  output buffer as it was; a null output pointer fails too.
\<close>

theorem pbkdf2_fails_iff:
  "(fst (tinyblake_pbkdf2 (Some obuf) outlen password passlen salt saltlen rounds) \<noteq> 0 \<longleftrightarrow>
      outlen = 0 \<or> rounds = 0 \<or> outlen > (2 ^ 32 - 1) * 64 \<or>
      fst (tinyblake_hmac_init uninit_hmac_state password passlen) \<noteq> 0 \<or>
      (salt = None \<and> 0 < saltlen)) \<and>
   (fst (tinyblake_pbkdf2 (Some obuf) outlen password passlen salt saltlen rounds) \<noteq> 0 \<longrightarrow>
      tinyblake_pbkdf2 (Some obuf) outlen password passlen salt saltlen rounds = (- 1, Some obuf)) \<and>
   (fst (tinyblake_hmac_init uninit_hmac_state password passlen) \<noteq> 0 \<longleftrightarrow>
      password = None \<or> passlen = 0) \<and>
   tinyblake_pbkdf2 None outlen password passlen salt saltlen rounds = (- 1, None)"
proof -
  let ?R = "tinyblake_pbkdf2 (Some obuf) outlen password passlen salt saltlen rounds"
  let ?args = "outlen = 0 \<or> rounds = 0 \<or> outlen > (2 ^ 32 - 1) * 64"
  let ?pw = "password = None \<or> passlen = 0"
  let ?salt = "salt = None \<and> 0 < saltlen"
  have null: "tinyblake_pbkdf2 None outlen password passlen salt saltlen rounds = (- 1, None)"
    by (simp add: tinyblake_pbkdf2_def)
  have R: "(fst ?R \<noteq> 0 \<longleftrightarrow> ?args \<or> ?pw \<or> ?salt) \<and> (fst ?R \<noteq> 0 \<longrightarrow> ?R = (- 1, Some obuf))"
  proof (cases ?args)
    case True
    then have "?R = (- 1, Some obuf)"
      by (auto simp: tinyblake_pbkdf2_def UINT32_MAX_def HLEN_def)
    with True show ?thesis by simp
  next
    case False
    then have pos: "0 < outlen" and
      R: "?R = (case pbkdf2_blocks obuf 0 outlen 1 password passlen salt saltlen rounds of
                 (rc, obuf) \<Rightarrow> (rc, Some obuf))"
      by (simp_all add: tinyblake_pbkdf2_def UINT32_MAX_def HLEN_def)
    show ?thesis
    proof (cases ?pw)
      case True
      from pbkdf2_blocks_fail_password[OF pos True] have "?R = (- 1, Some obuf)"
        unfolding R by simp
      with True show ?thesis by simp
    next
      case pw: False
      then obtain p where p: "password = Some p" "0 < passlen" by auto
      show ?thesis
      proof (cases ?salt)
        case True
        with pbkdf2_blocks_fail_salt[OF pos p(2), of saltlen obuf 0 1 p rounds] p
        have "pbkdf2_blocks obuf 0 outlen 1 password passlen salt saltlen rounds = (- 1, obuf)"
          by simp
        then have "?R = (- 1, Some obuf)"
          unfolding R by simp
        with True show ?thesis by simp
      next
        case False
        then have "salt \<noteq> None \<or> saltlen = 0" by simp
        from pbkdf2_blocks_ok[OF p(2) this, of obuf 0 outlen 1 p rounds] p
        have "fst (pbkdf2_blocks obuf 0 outlen 1 password passlen salt saltlen rounds) = 0"
          by simp
        then have "fst ?R = 0"
          unfolding R by (simp add: case_prod_beta)
        with False pw \<open>\<not> ?args\<close> show ?thesis by simp
      qed
    qed
  qed
  show ?thesis
    using R null hmac_init_rc[of uninit_hmac_state password passlen] by simp
qed

theorem pbkdf2_fails_iff_witness:
  "fst (tinyblake_pbkdf2 (Some [0]) 1 (Some [0x70]) 1 None 1 1) \<noteq> 0 \<and>
   tinyblake_pbkdf2 (Some [0]) 1 (Some [0x70]) 1 None 1 1 = (- 1, Some [0]) \<and>
   fst (tinyblake_pbkdf2 (Some [0]) 1 (Some [0x70]) 1 (Some [0x73]) 1 1) = 0"
  using pbkdf2_fails_iff[of "[0]" 1 "Some [0x70]" 1 None 1 1]
        pbkdf2_fails_iff[of "[0]" 1 "Some [0x70]" 1 "Some [0x73]" 1 1]
  by simp

text \<open>
  The claim as the specification states it fails: with a one-byte password, one round
  and one output byte, a null salt pointer with \<open>saltlen = 1\<close> makes the call fail although
  none of the listed conditions holds (the HMAC initialisation on that password
  succeeds).
\<close>

theorem pbkdf2_null_salt_counterexample:
  "fst (tinyblake_pbkdf2 (Some [0]) 1 (Some [0x70]) 1 None 1 1) = - 1 \<and>
   (1::nat) \<noteq> 0 \<and> (1::u32) \<noteq> 0 \<and> \<not> (1::nat) > (2 ^ 32 - 1) * 64 \<and>
   fst (tinyblake_hmac_init uninit_hmac_state (Some [0x70]) 1) = 0"
proof -
  have "pbkdf2_blocks [0] 0 1 1 (Some [0x70]) 1 None 1 1 = (- 1, [0])"
    by (rule pbkdf2_blocks_fail_salt) simp_all
  then have "fst (tinyblake_pbkdf2 (Some [0]) 1 (Some [0x70]) 1 None 1 1) = - 1"
    by (simp add: tinyblake_pbkdf2_def UINT32_MAX_def HLEN_def)
  moreover have "fst (tinyblake_hmac_init uninit_hmac_state (Some [0x70]) 1) = 0"
    using hmac_init_rc[of uninit_hmac_state "Some [0x70]" 1] by simp
  ultimately show ?thesis by simp
qed

section \<open>Reset of the HMAC hasher\<close>

lemma derive_pads_key_block:
  "derive_pads k keylen =
     (0, map (\<lambda>i. hmac_key_block k keylen ! i XOR 0x36) [0..<128],
         map (\<lambda>i. hmac_key_block k keylen ! i XOR 0x5C) [0..<128])"
proof (cases "keylen > 128")
  case True
  have "fst (tinyblake_blake2b (Some (replicate 128 0)) 64 (Some k) keylen None 0) = 0"
    by (rule oneshot_unkeyed_ok) simp_all
  with True show ?thesis
    by (simp add: derive_pads_def hmac_key_block_def Let_def case_prod_beta)
next
  case False
  then show ?thesis
    by (cases "keylen = 0") (simp_all add: derive_pads_def hmac_key_block_def Let_def memcpy_at_def)
qed

lemma key_block_of_key_block:
  "map (\<lambda>i. hmac_key_block kb 128 ! i XOR c) [0..<128] = map (\<lambda>i. kb ! i XOR c) [0..<128]"
  by (rule map_cong[OF refl]) (simp add: hmac_key_block_def memcpy_at_def nth_append)

lemma derive_pads_reset:
  "derive_pads (hmac_key_block k keylen) 128 = derive_pads k keylen"
  by (simp only: derive_pads_key_block[of "hmac_key_block k keylen" 128]
      derive_pads_key_block[of k keylen] key_block_of_key_block)

lemma hmac_init_value:
  assumes "0 < keylen"
  shows "tinyblake_hmac_init st (Some k) keylen =
     (0, \<lparr>inner = snd (tinyblake_blake2b_update (snd (tinyblake_blake2b_init zero_state 64))
                         (Some (fst (snd (derive_pads k keylen)))) 128),
          outer = snd (tinyblake_blake2b_update (snd (tinyblake_blake2b_init zero_state 64))
                         (Some (snd (snd (derive_pads k keylen)))) 128)\<rparr>)"
proof -
  obtain ipad opad where d: "derive_pads k keylen = (0, ipad, opad)"
    using derive_pads_ok[of k keylen] by (cases "derive_pads k keylen") auto
  obtain S1 where i: "tinyblake_blake2b_init S 64 = (0, S1)" for S
    using init_ok[of 64] by simp
  from init_boundary(1)[of 64 zero_state] i[of zero_state] have b1: "S_buflen S1 \<le> 128"
    by (simp add: boundary_def)
  have r: "fst (tinyblake_blake2b_update S1 (Some pad) 128) = 0" for pad
    using update_rc[of S1 "Some pad" 128] b1 by simp
  have "st\<lparr>inner := a, outer := b\<rparr> = \<lparr>inner = a, outer = b\<rparr>" for a b
    by simp
  then show ?thesis
    using assms r[of ipad] r[of opad]
    by (simp add: tinyblake_hmac_init_def d i case_prod_beta)
qed

text \<open>A successful HMAC init overwrites both states: the previous contents do not matter.\<close>

lemma hmac_init_overwrites:
  assumes "0 < keylen"
  shows "tinyblake_hmac_init st (Some k) keylen = tinyblake_hmac_init st' (Some k) keylen"
  by (simp only: hmac_init_value[OF assms])

lemma hmac_init_by_pads:
  assumes "0 < keylen" "0 < keylen'" "derive_pads k keylen = derive_pads k' keylen'"
  shows "tinyblake_hmac_init st (Some k) keylen = tinyblake_hmac_init st' (Some k') keylen'"
  by (simp only: hmac_init_value[OF assms(1)] hmac_init_value[OF assms(2)] assms(3))

lemma hmac_hasher_new_value:
  assumes "0 < keylen"
  shows "hmac_hasher_new (Some k) keylen =
     Inr \<lparr>m_state = snd (tinyblake_hmac_init uninit_hmac_state (Some k) keylen),
          m_key_pad = hmac_key_block k keylen\<rparr>"
  using assms hmac_init_value[OF assms, of uninit_hmac_state k]
  by (simp add: hmac_hasher_new_def hmac_key_block_def Let_def)

lemma hmac_hasher_reset_value:
  assumes "0 < keylen" "m_key_pad h' = hmac_key_block k keylen"
  shows "hmac_hasher_reset h' =
     Inr \<lparr>m_state = snd (tinyblake_hmac_init uninit_hmac_state (Some k) keylen),
          m_key_pad = hmac_key_block k keylen\<rparr>"
proof -
  have "tinyblake_hmac_init (m_state h') (Some (hmac_key_block k keylen)) 128 =
        tinyblake_hmac_init uninit_hmac_state (Some k) keylen"
    by (rule hmac_init_by_pads) (simp_all add: assms(1) derive_pads_reset)
  moreover have "fst (tinyblake_hmac_init uninit_hmac_state (Some k) keylen) = 0"
    using hmac_init_value[OF assms(1), of uninit_hmac_state k] by simp
  moreover have "h'\<lparr>m_state := x\<rparr> = \<lparr>m_state = x, m_key_pad = m_key_pad h'\<rparr>" for x
    by simp
  ultimately show ?thesis
    by (simp add: hmac_hasher_reset_def assms(2) case_prod_beta)
qed

lemma hmac_hasher_update_key_pad:
  "hmac_hasher_update h d n = Inr h' \<Longrightarrow> m_key_pad h' = m_key_pad h"
  by (auto simp: hmac_hasher_update_def case_prod_beta split: if_splits)

lemma hmac_hasher_final_key_pad:
  "hmac_hasher_final h = Inr (mac, h') \<Longrightarrow> m_key_pad h' = m_key_pad h"
  by (auto simp: hmac_hasher_final_def case_prod_beta split: if_splits)

lemma key_block_short:
  "length k \<le> 128 \<Longrightarrow> hmac_key_block k (length k) = k @ replicate (128 - length k) 0"
  by (simp add: hmac_key_block_def memcpy_at_def)


text \<open>
  Claim C10. For every key of at least one byte the constructor succeeds and stores the
  128-byte key block (the key followed by zeros, or for a key longer than 128 bytes the
  buffer holding its BLAKE2b-512 digest followed by zeros). \<open>reset()\<close> on any hasher that
  carries this key block, whatever its state (updates and \<open>final_\<close> leave the key block
  alone), yields exactly the freshly constructed hasher, because the pads derived from
  the key block are those derived from the key; so the MAC of every message after
  \<open>reset()\<close> is the MAC a fresh hasher produces.
\<close>

theorem hmac_reset_equals_fresh:
  assumes "0 < length k"
  shows "\<exists>h. hmac_hasher_new (Some k) (length k) = Inr h \<and>
           m_key_pad h = hmac_key_block k (length k) \<and>
           (length k \<le> 128 \<longrightarrow> m_key_pad h = k @ replicate (128 - length k) 0) \<and>
           derive_pads (m_key_pad h) 128 = derive_pads k (length k) \<and>
           (\<forall>h'. m_key_pad h' = m_key_pad h \<longrightarrow>
              hmac_hasher_reset h' = Inr h \<and>
              (\<forall>msg. (case hmac_hasher_reset h' of Inl e \<Rightarrow> Inl e
                           | Inr r \<Rightarrow> hmac_hasher_mac r msg) = hmac_hasher_mac h msg) \<and>
              (\<forall>d n h''. hmac_hasher_update h' d n = Inr h'' \<longrightarrow> m_key_pad h'' = m_key_pad h) \<and>
              (\<forall>mac h''. hmac_hasher_final h' = Inr (mac, h'') \<longrightarrow> m_key_pad h'' = m_key_pad h))"
proof -
  let ?h = "\<lparr>m_state = snd (tinyblake_hmac_init uninit_hmac_state (Some k) (length k)),
            m_key_pad = hmac_key_block k (length k)\<rparr>"
  have n: "hmac_hasher_new (Some k) (length k) = Inr ?h"
    by (rule hmac_hasher_new_value[OF assms])
  have r: "hmac_hasher_reset h' = Inr ?h" if "m_key_pad h' = m_key_pad ?h" for h' :: hmac_hasher
    using hmac_hasher_reset_value[OF assms, of h' k] that by simp
  have u: "m_key_pad h'' = m_key_pad ?h"
    if "m_key_pad h' = m_key_pad ?h" "hmac_hasher_update h' d n = Inr h''" for h' h'' d n
    using hmac_hasher_update_key_pad[OF that(2)] that(1) by simp
  have f: "m_key_pad h'' = m_key_pad ?h"
    if "m_key_pad h' = m_key_pad ?h" "hmac_hasher_final h' = Inr (mac, h'')" for h' h'' mac
    using hmac_hasher_final_key_pad[OF that(2)] that(1) by simp
  have s: "length k \<le> 128 \<longrightarrow> m_key_pad ?h = k @ replicate (128 - length k) 0"
    by (simp add: key_block_short)
  have d: "derive_pads (m_key_pad ?h) 128 = derive_pads k (length k)"
    by (simp add: derive_pads_reset)
  have m: "(case hmac_hasher_reset h' of Inl e \<Rightarrow> Inl e | Inr r \<Rightarrow> hmac_hasher_mac r msg) =
           hmac_hasher_mac ?h msg" if "m_key_pad h' = m_key_pad ?h" for h' :: hmac_hasher and msg
    by (simp only: r[OF that] sum.case)
  have kp: "m_key_pad ?h = hmac_key_block k (length k)"
    by simp
  have every: "\<forall>h'. m_key_pad h' = m_key_pad ?h \<longrightarrow>
              hmac_hasher_reset h' = Inr ?h \<and>
              (\<forall>msg. (case hmac_hasher_reset h' of Inl e \<Rightarrow> Inl e
                           | Inr r \<Rightarrow> hmac_hasher_mac r msg) = hmac_hasher_mac ?h msg) \<and>
              (\<forall>d n h''. hmac_hasher_update h' d n = Inr h'' \<longrightarrow> m_key_pad h'' = m_key_pad ?h) \<and>
              (\<forall>mac h''. hmac_hasher_final h' = Inr (mac, h'') \<longrightarrow> m_key_pad h'' = m_key_pad ?h)"
  proof (intro allI impI)
    fix h' :: hmac_hasher assume a: "m_key_pad h' = m_key_pad ?h"
    show "hmac_hasher_reset h' = Inr ?h \<and>
              (\<forall>msg. (case hmac_hasher_reset h' of Inl e \<Rightarrow> Inl e
                           | Inr r \<Rightarrow> hmac_hasher_mac r msg) = hmac_hasher_mac ?h msg) \<and>
              (\<forall>d n h''. hmac_hasher_update h' d n = Inr h'' \<longrightarrow> m_key_pad h'' = m_key_pad ?h) \<and>
              (\<forall>mac h''. hmac_hasher_final h' = Inr (mac, h'') \<longrightarrow> m_key_pad h'' = m_key_pad ?h)"
    proof (intro conjI allI impI)
      show "hmac_hasher_reset h' = Inr ?h" by (rule r[OF a])
    next
      fix msg
      show "(case hmac_hasher_reset h' of Inl e \<Rightarrow> Inl e | Inr r \<Rightarrow> hmac_hasher_mac r msg) =
            hmac_hasher_mac ?h msg" by (rule m[OF a])
    next
      fix d n h'' assume "hmac_hasher_update h' d n = Inr h''"
      then show "m_key_pad h'' = m_key_pad ?h" by (rule u[OF a])
    next
      fix mac h'' assume "hmac_hasher_final h' = Inr (mac, h'')"
      then show "m_key_pad h'' = m_key_pad ?h" by (rule f[OF a])
    qed
  qed
  show ?thesis
    by (rule exI[of _ ?h], intro conjI) (rule n kp s d every)+
qed

theorem hmac_reset_equals_fresh_witness:
  "0 < length [0x6b, 0x65, 0x79 :: u8] \<and>
   (\<exists>h. hmac_hasher_new (Some [0x6b, 0x65, 0x79]) (length [0x6b, 0x65, 0x79 :: u8]) = Inr h \<and>
        m_key_pad h = [0x6b, 0x65, 0x79] @ replicate 125 0 \<and>
        (\<forall>st. hmac_hasher_reset (h\<lparr>m_state := st\<rparr>) = Inr h))"
proof -
  have h: "0 < length [0x6b, 0x65, 0x79 :: u8]" by simp
  from hmac_reset_equals_fresh[OF h] obtain hs where
    n: "hmac_hasher_new (Some [0x6b, 0x65, 0x79]) (length [0x6b, 0x65, 0x79 :: u8]) = Inr hs" and
    k: "length [0x6b, 0x65, 0x79 :: u8] \<le> 128 \<longrightarrow>
          m_key_pad hs = [0x6b, 0x65, 0x79] @ replicate (128 - length [0x6b, 0x65, 0x79 :: u8]) 0" and
    r: "\<forall>h'. m_key_pad h' = m_key_pad hs \<longrightarrow> hmac_hasher_reset h' = Inr hs"
    by blast
  have kp: "m_key_pad hs = [0x6b, 0x65, 0x79] @ replicate 125 0"
    using k by simp
  have "hmac_hasher_reset (hs\<lparr>m_state := st\<rparr>) = Inr hs" for st
  proof -
    have "m_key_pad (hs\<lparr>m_state := st\<rparr>) = m_key_pad hs" by simp
    with r[rule_format, of "hs\<lparr>m_state := st\<rparr>"] show ?thesis by simp
  qed
  with n h kp show ?thesis by (intro conjI exI[of _ hs] allI)
qed

section \<open>The test vector BLAKE2b-512("abc")\<close>

text \<open>
  The digest is computed inside the logic, one round at a time: each lemma below runs
  one \<open>ROUND\<close> of the source on the working vector the previous round produced.
\<close>

lemma abc_round_0:
  "ROUND 0 [0x636261, 0, 0, 0, 0, 0, 0, 0, 0, 0, 0, 0, 0, 0, 0, 0]
    [0x6A09E667F2BDC948, 0xBB67AE8584CAA73B, 0x3C6EF372FE94F82B, 0xA54FF53A5F1D36F1,
     0x510E527FADE682D1, 0x9B05688C2B3E6C1F, 0x1F83D9ABFB41BD6B, 0x5BE0CD19137E2179,
     0x6A09E667F3BCC908, 0xBB67AE8584CAA73B, 0x3C6EF372FE94F82B, 0xA54FF53A5F1D36F1,
     0x510E527FADE682D2, 0x9B05688C2B3E6C1F, 0xE07C265404BE4294, 0x5BE0CD19137E2179] =
    [0x86B7C1568029BB79, 0xC12CBCC809FF59F3, 0xC6A5214CC0EACA8E, 0x0C87CD524C14CC5D,
     0x44EE6039BD86A9F7, 0xA447C850AA694A7E, 0xDE080F1BB1C0F84B, 0x595CB8A9A1ACA66C,
     0xBEC3AE837EAC4887, 0x6267FC79DF9D6AD1, 0xFA87B01273FA6DBE, 0x521A715C63E08D8A,
     0xE02D0975B8D37A83, 0x1C7B754F08B7D193, 0x8F885A76B6E578FE, 0x2318A24E2140FC64]"
  by (simp add: ROUND_def G_def rotr64_def SIGMA_tbl_def cong: let_weak_cong)

lemma abc_round_1:
  "ROUND 1 [0x636261, 0, 0, 0, 0, 0, 0, 0, 0, 0, 0, 0, 0, 0, 0, 0]
    [0x86B7C1568029BB79, 0xC12CBCC809FF59F3, 0xC6A5214CC0EACA8E, 0x0C87CD524C14CC5D,
     0x44EE6039BD86A9F7, 0xA447C850AA694A7E, 0xDE080F1BB1C0F84B, 0x595CB8A9A1ACA66C,
     0xBEC3AE837EAC4887, 0x6267FC79DF9D6AD1, 0xFA87B01273FA6DBE, 0x521A715C63E08D8A,
     0xE02D0975B8D37A83, 0x1C7B754F08B7D193, 0x8F885A76B6E578FE, 0x2318A24E2140FC64] =
    [0x53281E83806010F2, 0x3594B403F81B4393, 0x8CD63C7462DE0DFF, 0x85F693F3DA53F974,
     0xBAABDBB2F386D9AE, 0xCA5425AEC65A10A8, 0xC6A22E2FF0F7AA48, 0xC6A56A51CB89C595,
     0x224E6A3369224F96, 0x500E125E58A92923, 0xE9E4AD0D0E1A0D48, 0x85DF9DC143C59A74,
     0x92A3AAAA6D952B7F, 0xC5FDF71090FAE853, 0x2A8A40F15A462DD0, 0x572D17EFFDD37358]"
  by (simp add: ROUND_def G_def rotr64_def SIGMA_tbl_def cong: let_weak_cong)

lemma abc_round_2:
  "ROUND 2 [0x636261, 0, 0, 0, 0, 0, 0, 0, 0, 0, 0, 0, 0, 0, 0, 0]
    [0x53281E83806010F2, 0x3594B403F81B4393, 0x8CD63C7462DE0DFF, 0x85F693F3DA53F974,
     0xBAABDBB2F386D9AE, 0xCA5425AEC65A10A8, 0xC6A22E2FF0F7AA48, 0xC6A56A51CB89C595,
     0x224E6A3369224F96, 0x500E125E58A92923, 0xE9E4AD0D0E1A0D48, 0x85DF9DC143C59A74,
     0x92A3AAAA6D952B7F, 0xC5FDF71090FAE853, 0x2A8A40F15A462DD0, 0x572D17EFFDD37358] =
    [0x60ED96AA7AD41725, 0xE46A743C71800B9D, 0x1A04B543A01F156B, 0xA2F8716E775C4877,
     0xDA0A61BCDE4267EA, 0xB1DD230754D7BDEE, 0x25A1422779E06D14, 0xE6823AE4C3FF58A5,
     0xA1677E19F37FD5DA, 0x22BDCE6976B08C51, 0xF1DE8696BEC11BF1, 0xA0EBD586A4A1D2C8,
     0xC804EBAB11C99FA9, 0x8E0CEC959C715793, 0x7C45557FAE0D4D89, 0x716343F52FDD265E]"
  by (simp add: ROUND_def G_def rotr64_def SIGMA_tbl_def cong: let_weak_cong)

lemma abc_round_3:
  "ROUND 3 [0x636261, 0, 0, 0, 0, 0, 0, 0, 0, 0, 0, 0, 0, 0, 0, 0]
    [0x60ED96AA7AD41725, 0xE46A743C71800B9D, 0x1A04B543A01F156B, 0xA2F8716E775C4877,
     0xDA0A61BCDE4267EA, 0xB1DD230754D7BDEE, 0x25A1422779E06D14, 0xE6823AE4C3FF58A5,
     0xA1677E19F37FD5DA, 0x22BDCE6976B08C51, 0xF1DE8696BEC11BF1, 0xA0EBD586A4A1D2C8,
     0xC804EBAB11C99FA9, 0x8E0CEC959C715793, 0x7C45557FAE0D4D89, 0x716343F52FDD265E] =
    [0xBB2A77D3A8382351, 0x45EB47971F23B103, 0x98BE297F6E45C684, 0xA36077DEE3370B89,
     0x8A03C4CB7E97590A, 0x24192E49EBF54EA0, 0x4F82C9401CB32D7A, 0x8CCD013726420DC4,
     0xA9C9A8F17B1FC614, 0x55908187977514A0, 0x5B44273E66B19D27, 0xB6D5C9FCA2579327,
     0x086092CFB858437E, 0x5C4BE2156DBEECF9, 0x2EFEDE99ED4EFF16, 0x3E7B5F234CD1F804]"
  by (simp add: ROUND_def G_def rotr64_def SIGMA_tbl_def cong: let_weak_cong)

lemma abc_round_4:
  "ROUND 4 [0x636261, 0, 0, 0, 0, 0, 0, 0, 0, 0, 0, 0, 0, 0, 0, 0]
    [0xBB2A77D3A8382351, 0x45EB47971F23B103, 0x98BE297F6E45C684, 0xA36077DEE3370B89,
     0x8A03C4CB7E97590A, 0x24192E49EBF54EA0, 0x4F82C9401CB32D7A, 0x8CCD013726420DC4,
     0xA9C9A8F17B1FC614, 0x55908187977514A0, 0x5B44273E66B19D27, 0xB6D5C9FCA2579327,
     0x086092CFB858437E, 0x5C4BE2156DBEECF9, 0x2EFEDE99ED4EFF16, 0x3E7B5F234CD1F804] =
    [0xC79C15B3D423B099, 0x2DA2224E8DA97556, 0x77D2B26DF1C45C55, 0x8934EB09A3456052,
     0x0F6D9EEED157DA2A, 0x6FE66467AF88C0A9, 0x4EB0B76284C7AAFB, 0x299C8E725D954697,
     0xB2240B59E6D567D3, 0x2643C2370E49EBFD, 0x79E02EEF20CDB1AE, 0x64B3EED7BB602F39,
     0xB97D2D439E4DF63D, 0xC718E755294C9111, 0x1F0893F2772BB373, 0x1205EA4A7859807D]"
  by (simp add: ROUND_def G_def rotr64_def SIGMA_tbl_def cong: let_weak_cong)

lemma abc_round_5:
  "ROUND 5 [0x636261, 0, 0, 0, 0, 0, 0, 0, 0, 0, 0, 0, 0, 0, 0, 0]
    [0xC79C15B3D423B099, 0x2DA2224E8DA97556, 0x77D2B26DF1C45C55, 0x8934EB09A3456052,
     0x0F6D9EEED157DA2A, 0x6FE66467AF88C0A9, 0x4EB0B76284C7AAFB, 0x299C8E725D954697,
     0xB2240B59E6D567D3, 0x2643C2370E49EBFD, 0x79E02EEF20CDB1AE, 0x64B3EED7BB602F39,
     0xB97D2D439E4DF63D, 0xC718E755294C9111, 0x1F0893F2772BB373, 0x1205EA4A7859807D] =
    [0xE58F97D6385BAEE4, 0x7640AA9764DA137A, 0xDEB4C7C23EFE287E, 0x70F6F41C8783C9F6,
     0x7127CD48C76A7708, 0x9E472AF0BE3DB3F6, 0x0F244C62DDF71788, 0x219828AA83880842,
     0x41CCA9073C8C4D0D, 0x5C7912BC10DF3B4B, 0xA2C3ABBD37510EE2, 0xCB5668CC2A9F7859,
     0x8733794F07AC1500, 0xC67A6BE42335AA6F, 0xACB22B28681E4C82, 0xDB2161604CBC9828]"
  by (simp add: ROUND_def G_def rotr64_def SIGMA_tbl_def cong: let_weak_cong)

lemma abc_round_6:
  "ROUND 6 [0x636261, 0, 0, 0, 0, 0, 0, 0, 0, 0, 0, 0, 0, 0, 0, 0]
    [0xE58F97D6385BAEE4, 0x7640AA9764DA137A, 0xDEB4C7C23EFE287E, 0x70F6F41C8783C9F6,
     0x7127CD48C76A7708, 0x9E472AF0BE3DB3F6, 0x0F244C62DDF71788, 0x219828AA83880842,
     0x41CCA9073C8C4D0D, 0x5C7912BC10DF3B4B, 0xA2C3ABBD37510EE2, 0xCB5668CC2A9F7859,
     0x8733794F07AC1500, 0xC67A6BE42335AA6F, 0xACB22B28681E4C82, 0xDB2161604CBC9828] =
    [0x6E2D286EEADEDC81, 0xBCF02C0787E86358, 0x57D56A56DD015EDF, 0x55D899D40A5D0D0A,
     0x819415B56220C459, 0xB63C479A6A769F02, 0x258E55E0EC1F362A, 0x3A3B4EC60E19DFDC,
     0x04D769B3FCB048DB, 0xB78A9A33E9BFF4DD, 0x5777272AE1E930C0, 0x5A387849E578DBF6,
     0x92AAC307CF2C0AFC, 0x30AACCC4F06DAFAA, 0x483893CC094F8863, 0xE03C6CC89C26BF92]"
  by (simp add: ROUND_def G_def rotr64_def SIGMA_tbl_def cong: let_weak_cong)

lemma abc_round_7:
  "ROUND 7 [0x636261, 0, 0, 0, 0, 0, 0, 0, 0, 0, 0, 0, 0, 0, 0, 0]
    [0x6E2D286EEADEDC81, 0xBCF02C0787E86358, 0x57D56A56DD015EDF, 0x55D899D40A5D0D0A,
     0x819415B56220C459, 0xB63C479A6A769F02, 0x258E55E0EC1F362A, 0x3A3B4EC60E19DFDC,
     0x04D769B3FCB048DB, 0xB78A9A33E9BFF4DD, 0x5777272AE1E930C0, 0x5A387849E578DBF6,
     0x92AAC307CF2C0AFC, 0x30AACCC4F06DAFAA, 0x483893CC094F8863, 0xE03C6CC89C26BF92] =
    [0xFFC83ECE76024D01, 0x1BE7BFFB8C5CC5F9, 0xA35A18CBAC4C65B7, 0xB7C2C7E6D88C285F,
     0x81937DA314A50838, 0xE1179523A2541963, 0x3A1FAD7106232B8F, 0x1C7EDE92AB8B9C46,
     0xA3C2D35E4F685C10, 0xA53D3F73AA619624, 0x30BBCC0285A22F65, 0xBCEFBB6A81539E5D,
     0x3841DEF6F4C9848A, 0x98662C85FBA726D4, 0x7762439BD5A851BD, 0xB0B9F0D443D1A889]"
  by (simp add: ROUND_def G_def rotr64_def SIGMA_tbl_def cong: let_weak_cong)

lemma abc_round_8:
  "ROUND 8 [0x636261, 0, 0, 0, 0, 0, 0, 0, 0, 0, 0, 0, 0, 0, 0, 0]
    [0xFFC83ECE76024D01, 0x1BE7BFFB8C5CC5F9, 0xA35A18CBAC4C65B7, 0xB7C2C7E6D88C285F,
     0x81937DA314A50838, 0xE1179523A2541963, 0x3A1FAD7106232B8F, 0x1C7EDE92AB8B9C46,
     0xA3C2D35E4F685C10, 0xA53D3F73AA619624, 0x30BBCC0285A22F65, 0xBCEFBB6A81539E5D,
     0x3841DEF6F4C9848A, 0x98662C85FBA726D4, 0x7762439BD5A851BD, 0xB0B9F0D443D1A889] =
    [0x753A70A1E8FAEADD, 0x6B0D43CA2C25D629, 0xF8343BA8B94F8C0B, 0xBC7D062B0DB5CF35,
     0x58540EE1B1AEBC47, 0x63C5B9B80D294CB9, 0x490870ECAD27DEBD, 0xB2A90DDF667287FE,
     0x316CC9EBEEFAD8FC, 0x4A466BCD021526A4, 0x5DA7F7638CEC5669, 0xD9C8826727D306FC,
     0x88ED6C4F3BD7A537, 0x19AE688DDF67F026, 0x4D8707AAB40F7E6D, 0xFD3F572687FEA4F1]"
  by (simp add: ROUND_def G_def rotr64_def SIGMA_tbl_def cong: let_weak_cong)

lemma abc_round_9:
  "ROUND 9 [0x636261, 0, 0, 0, 0, 0, 0, 0, 0, 0, 0, 0, 0, 0, 0, 0]
    [0x753A70A1E8FAEADD, 0x6B0D43CA2C25D629, 0xF8343BA8B94F8C0B, 0xBC7D062B0DB5CF35,
     0x58540EE1B1AEBC47, 0x63C5B9B80D294CB9, 0x490870ECAD27DEBD, 0xB2A90DDF667287FE,
     0x316CC9EBEEFAD8FC, 0x4A466BCD021526A4, 0x5DA7F7638CEC5669, 0xD9C8826727D306FC,
     0x88ED6C4F3BD7A537, 0x19AE688DDF67F026, 0x4D8707AAB40F7E6D, 0xFD3F572687FEA4F1] =
    [0xE630C747CCD59C4F, 0xBC713D41127571CA, 0x46DB183025025078, 0x6727E81260610140,
     0x2D04185EAC2A8CBA, 0x5F311B88904056EC, 0x40BD313009201AAB, 0x0099D4F82A2A1EAB,
     0x6DD4FBC1DE60165D, 0xB3B0B51DE3C86270, 0x900AEE2F233B08E5, 0xA07199D87AD058D8,
     0x2C6B25593D717852, 0x37E8CA471BEAA5F8, 0x2CFC1BAC10EF4457, 0x01369EC18746E775]"
  by (simp add: ROUND_def G_def rotr64_def SIGMA_tbl_def cong: let_weak_cong)

lemma abc_round_10:
  "ROUND 10 [0x636261, 0, 0, 0, 0, 0, 0, 0, 0, 0, 0, 0, 0, 0, 0, 0]
    [0xE630C747CCD59C4F, 0xBC713D41127571CA, 0x46DB183025025078, 0x6727E81260610140,
     0x2D04185EAC2A8CBA, 0x5F311B88904056EC, 0x40BD313009201AAB, 0x0099D4F82A2A1EAB,
     0x6DD4FBC1DE60165D, 0xB3B0B51DE3C86270, 0x900AEE2F233B08E5, 0xA07199D87AD058D8,
     0x2C6B25593D717852, 0x37E8CA471BEAA5F8, 0x2CFC1BAC10EF4457, 0x01369EC18746E775] =
    [0xE801F73B9768C760, 0x35C6D22320BE511D, 0x306F27584F65495E, 0xB51776ADF569A77B,
     0xF4F1BE86690B3C34, 0x3CC88735D1475E4B, 0x5DAC67921FF76949, 0x1CDB9D31AD70CC4E,
     0x35BA354A9C7DF448, 0x4929CBE45679D73E, 0x733D1A17248F39DB, 0x92D57B736F5F170A,
     0x61B5C0A41D491399, 0xB5C333457E12844A, 0xBD696BE010D0D889, 0x02231E1A917FE0BD]"
  by (simp add: ROUND_def G_def rotr64_def SIGMA_tbl_def cong: let_weak_cong)

lemma abc_round_11:
  "ROUND 11 [0x636261, 0, 0, 0, 0, 0, 0, 0, 0, 0, 0, 0, 0, 0, 0, 0]
    [0xE801F73B9768C760, 0x35C6D22320BE511D, 0x306F27584F65495E, 0xB51776ADF569A77B,
     0xF4F1BE86690B3C34, 0x3CC88735D1475E4B, 0x5DAC67921FF76949, 0x1CDB9D31AD70CC4E,
     0x35BA354A9C7DF448, 0x4929CBE45679D73E, 0x733D1A17248F39DB, 0x92D57B736F5F170A,
     0x61B5C0A41D491399, 0xB5C333457E12844A, 0xBD696BE010D0D889, 0x02231E1A917FE0BD] =
    [0x12EF8A641EC4F6D6, 0xBCED5DE977C9FAF5, 0x733CA476C5148639, 0x97DF596B0610F6FC,
     0xF42C16519AD5AFA7, 0xAA5AC1888E10467E, 0x217D930AA51787F3, 0x906A6FF19E573942,
     0x75AB709BD3DCBF24, 0xEE7CE1F345947AA4, 0xF8960D6C2FAF5F5E, 0xE332538A36B6D246,
     0x885BEF040EF6AA0B, 0xA4939A417BFB78A3, 0x646CBB7AF6DCE980, 0xE813A23C60AF3B82]"
  by (simp add: ROUND_def G_def rotr64_def SIGMA_tbl_def cong: let_weak_cong)

lemma upt16: "[0..<16] = [0, 1, 2, 3, 4, 5, 6, 7, 8, 9, 10, 11, 12, 13, 14, 15]"
  by (simp add: upt_rec)

lemma abc_block_literal:
  "[0x61, 0x62, 0x63] @ replicate 125 (0::u8) =
     [0x61, 0x62, 0x63, 0, 0, 0, 0, 0, 0, 0, 0, 0, 0, 0, 0, 0,
      0, 0, 0, 0, 0, 0, 0, 0, 0, 0, 0, 0, 0, 0, 0, 0,
      0, 0, 0, 0, 0, 0, 0, 0, 0, 0, 0, 0, 0, 0, 0, 0,
      0, 0, 0, 0, 0, 0, 0, 0, 0, 0, 0, 0, 0, 0, 0, 0,
      0, 0, 0, 0, 0, 0, 0, 0, 0, 0, 0, 0, 0, 0, 0, 0,
      0, 0, 0, 0, 0, 0, 0, 0, 0, 0, 0, 0, 0, 0, 0, 0,
      0, 0, 0, 0, 0, 0, 0, 0, 0, 0, 0, 0, 0, 0, 0, 0,
      0, 0, 0, 0, 0, 0, 0, 0, 0, 0, 0, 0, 0, 0, 0, 0]"
  by (simp add: eval_nat_numeral)

lemma abc_message_words:
  "map (\<lambda>i. load_le64 (drop (i * 8) ([0x61, 0x62, 0x63] @ replicate 125 0))) [0..<16] =
     [0x636261, 0, 0, 0, 0, 0, 0, 0, 0, 0, 0, 0, 0, 0, 0, 0]"
  unfolding abc_block_literal upt16
  by (simp add: load_le64_def)


lemma abc_initial_v:
  "map (\<lambda>i. [0x6A09E667F2BDC948, 0xBB67AE8584CAA73B, 0x3C6EF372FE94F82B, 0xA54FF53A5F1D36F1,
     0x510E527FADE682D1, 0x9B05688C2B3E6C1F, 0x1F83D9ABFB41BD6B, 0x5BE0CD19137E2179] ! i) [0..<8] @
     [IV ! 0, IV ! 1, IV ! 2, IV ! 3, IV ! 4 XOR 3, IV ! 5 XOR 0,
      (if True then IV ! 6 XOR 0xFFFFFFFFFFFFFFFF else IV ! 6), IV ! 7] =
     [0x6A09E667F2BDC948, 0xBB67AE8584CAA73B, 0x3C6EF372FE94F82B, 0xA54FF53A5F1D36F1,
     0x510E527FADE682D1, 0x9B05688C2B3E6C1F, 0x1F83D9ABFB41BD6B, 0x5BE0CD19137E2179,
     0x6A09E667F3BCC908, 0xBB67AE8584CAA73B, 0x3C6EF372FE94F82B, 0xA54FF53A5F1D36F1,
     0x510E527FADE682D2, 0x9B05688C2B3E6C1F, 0xE07C265404BE4294, 0x5BE0CD19137E2179]"
  unfolding upt8
  by (simp add: IV_def)

lemma abc_feed_forward:
  "map (\<lambda>i. ([0x6A09E667F2BDC948, 0xBB67AE8584CAA73B, 0x3C6EF372FE94F82B, 0xA54FF53A5F1D36F1,
     0x510E527FADE682D1, 0x9B05688C2B3E6C1F, 0x1F83D9ABFB41BD6B, 0x5BE0CD19137E2179] :: u64 list) ! i XOR
          ([0x12EF8A641EC4F6D6, 0xBCED5DE977C9FAF5, 0x733CA476C5148639, 0x97DF596B0610F6FC,
     0xF42C16519AD5AFA7, 0xAA5AC1888E10467E, 0x217D930AA51787F3, 0x906A6FF19E573942,
     0x75AB709BD3DCBF24, 0xEE7CE1F345947AA4, 0xF8960D6C2FAF5F5E, 0xE332538A36B6D246,
     0x885BEF040EF6AA0B, 0xA4939A417BFB78A3, 0x646CBB7AF6DCE980, 0xE813A23C60AF3B82] ! i XOR
           [0x12EF8A641EC4F6D6, 0xBCED5DE977C9FAF5, 0x733CA476C5148639, 0x97DF596B0610F6FC,
     0xF42C16519AD5AFA7, 0xAA5AC1888E10467E, 0x217D930AA51787F3, 0x906A6FF19E573942,
     0x75AB709BD3DCBF24, 0xEE7CE1F345947AA4, 0xF8960D6C2FAF5F5E, 0xE332538A36B6D246,
     0x885BEF040EF6AA0B, 0xA4939A417BFB78A3, 0x646CBB7AF6DCE980, 0xE813A23C60AF3B82] ! (i + 8))) [0..<8] =
     [0x0D4D1C983FA580BA, 0xE9F6129FB697276A, 0xB7C45A68142F214C, 0xD1A2FFDB6FBB124B,
     0x2D79AB2A39C5877D, 0x95CC3345DED552C2, 0x5A92F1DBA88AD318, 0x239900D4ED8623B9]"
  unfolding upt8
  by simp

lemma abc_compress:
  "blake2b_compress_portable
     [0x6A09E667F2BDC948, 0xBB67AE8584CAA73B, 0x3C6EF372FE94F82B, 0xA54FF53A5F1D36F1,
     0x510E527FADE682D1, 0x9B05688C2B3E6C1F, 0x1F83D9ABFB41BD6B, 0x5BE0CD19137E2179]
     ([0x61, 0x62, 0x63] @ replicate 125 0) 3 0 True =
     [0x0D4D1C983FA580BA, 0xE9F6129FB697276A, 0xB7C45A68142F214C, 0xD1A2FFDB6FBB124B,
     0x2D79AB2A39C5877D, 0x95CC3345DED552C2, 0x5A92F1DBA88AD318, 0x239900D4ED8623B9]"
  unfolding blake2b_compress_portable_def abc_message_words Let_def abc_initial_v
    abc_round_0 abc_round_1 abc_round_2 abc_round_3 abc_round_4 abc_round_5
    abc_round_6 abc_round_7 abc_round_8 abc_round_9 abc_round_10 abc_round_11
  by (rule abc_feed_forward)

lemma abc_digest_bytes:
  "concat (map (\<lambda>i. store_le64 ([0x0D4D1C983FA580BA, 0xE9F6129FB697276A, 0xB7C45A68142F214C, 0xD1A2FFDB6FBB124B,
     0x2D79AB2A39C5877D, 0x95CC3345DED552C2, 0x5A92F1DBA88AD318, 0x239900D4ED8623B9] ! i)) [0..<8]) =
     [0xba, 0x80, 0xa5, 0x3f, 0x98, 0x1c, 0x4d, 0x0d, 0x6a, 0x27, 0x97, 0xb6, 0x9f, 0x12, 0xf6, 0xe9,
     0x4c, 0x21, 0x2f, 0x14, 0x68, 0x5a, 0xc4, 0xb7, 0x4b, 0x12, 0xbb, 0x6f, 0xdb, 0xff, 0xa2, 0xd1,
     0x7d, 0x87, 0xc5, 0x39, 0x2a, 0xab, 0x79, 0x2d, 0xc2, 0x52, 0xd5, 0xde, 0x45, 0x33, 0xcc, 0x95,
     0x18, 0xd3, 0x8a, 0xa8, 0xdb, 0xf1, 0x92, 0x5a, 0xb9, 0x23, 0x86, 0xed, 0xd4, 0x00, 0x99, 0x23]"
  unfolding upt8
  by (simp add: store_le64_def)

lemma zeros64_literal:
  "replicate 64 (0::u8) =
     [0, 0, 0, 0, 0, 0, 0, 0, 0, 0, 0, 0, 0, 0, 0, 0,
      0, 0, 0, 0, 0, 0, 0, 0, 0, 0, 0, 0, 0, 0, 0, 0,
      0, 0, 0, 0, 0, 0, 0, 0, 0, 0, 0, 0, 0, 0, 0, 0,
      0, 0, 0, 0, 0, 0, 0, 0, 0, 0, 0, 0, 0, 0, 0, 0]"
  by (simp add: eval_nat_numeral)

lemma default_param_64:
  "build_default_param 64 0 =
     [0x40, 0, 1, 1, 0, 0, 0, 0, 0, 0, 0, 0, 0, 0, 0, 0,
      0, 0, 0, 0, 0, 0, 0, 0, 0, 0, 0, 0, 0, 0, 0, 0,
      0, 0, 0, 0, 0, 0, 0, 0, 0, 0, 0, 0, 0, 0, 0, 0,
      0, 0, 0, 0, 0, 0, 0, 0, 0, 0, 0, 0, 0, 0, 0, 0]"
  unfolding build_default_param_def zeros64_literal
  by simp

lemma abc_initial_h:
  "map (\<lambda>i. IV ! i XOR load_le64 (drop (i * 8) (build_default_param 64 0))) [0..<8] =
     [0x6A09E667F2BDC948, 0xBB67AE8584CAA73B, 0x3C6EF372FE94F82B, 0xA54FF53A5F1D36F1,
     0x510E527FADE682D1, 0x9B05688C2B3E6C1F, 0x1F83D9ABFB41BD6B, 0x5BE0CD19137E2179]"
  unfolding upt8 default_param_64
  by (simp add: IV_def load_le64_def)

lemma abc_init:
  "tinyblake_blake2b_init uninit_state 64 =
     (0, zero_state\<lparr>S_outlen := 64, S_h :=
       [0x6A09E667F2BDC948, 0xBB67AE8584CAA73B, 0x3C6EF372FE94F82B, 0xA54FF53A5F1D36F1,
     0x510E527FADE682D1, 0x9B05688C2B3E6C1F, 0x1F83D9ABFB41BD6B, 0x5BE0CD19137E2179]\<rparr>)"
proof -
  have "tinyblake_blake2b_init uninit_state 64 =
     (0, zero_state\<lparr>S_outlen := of_nat 64,
                     S_h := map (\<lambda>i. IV ! i XOR load_le64 (drop (i * 8)
                                (build_default_param (of_nat 64) 0))) [0..<8]\<rparr>)"
    by (rule init_ok) simp_all
  then show ?thesis
    by (simp add: abc_initial_h)
qed

lemma abc_final:
  fixes S :: blake2b_state
  assumes "S_h S = [0x6A09E667F2BDC948, 0xBB67AE8584CAA73B, 0x3C6EF372FE94F82B, 0xA54FF53A5F1D36F1,
     0x510E527FADE682D1, 0x9B05688C2B3E6C1F, 0x1F83D9ABFB41BD6B, 0x5BE0CD19137E2179]"
    and "S_t0 S = 0" and "S_t1 S = 0" and "S_outlen S = 64"
    and "boundary S" and "pending S = [0x61, 0x62, 0x63]"
  shows "tinyblake_blake2b_final S (Some obuf) 64 =
     (0, zero_state, Some (
       [0xba, 0x80, 0xa5, 0x3f, 0x98, 0x1c, 0x4d, 0x0d, 0x6a, 0x27, 0x97, 0xb6, 0x9f, 0x12, 0xf6, 0xe9,
     0x4c, 0x21, 0x2f, 0x14, 0x68, 0x5a, 0xc4, 0xb7, 0x4b, 0x12, 0xbb, 0x6f, 0xdb, 0xff, 0xa2, 0xd1,
     0x7d, 0x87, 0xc5, 0x39, 0x2a, 0xab, 0x79, 0x2d, 0xc2, 0x52, 0xd5, 0xde, 0x45, 0x33, 0xcc, 0x95,
     0x18, 0xd3, 0x8a, 0xa8, 0xdb, 0xf1, 0x92, 0x5a, 0xb9, 0x23, 0x86, 0xed, 0xd4, 0x00, 0x99, 0x23]
       @ drop 64 obuf))"
proof -
  have a: "advance_counter (core S) (of_nat (length (pending S))) = (core S)\<lparr>S_t0 := 3\<rparr>"
    by (simp add: assms advance_counter_def Let_def)
  have "S_h (compress_block (advance_counter (core S) (of_nat (length (pending S))))
               (pending S @ replicate (128 - length (pending S)) 0) True) =
        blake2b_compress_portable
          [0x6A09E667F2BDC948, 0xBB67AE8584CAA73B, 0x3C6EF372FE94F82B, 0xA54FF53A5F1D36F1,
     0x510E527FADE682D1, 0x9B05688C2B3E6C1F, 0x1F83D9ABFB41BD6B, 0x5BE0CD19137E2179]
          ([0x61, 0x62, 0x63] @ replicate 125 0) 3 0 True"
    unfolding a by (simp add: compress_block_def get_compress_def assms)
  then have h: "S_h (compress_block (advance_counter (core S) (of_nat (length (pending S))))
               (pending S @ replicate (128 - length (pending S)) 0) True) =
        [0x0D4D1C983FA580BA, 0xE9F6129FB697276A, 0xB7C45A68142F214C, 0xD1A2FFDB6FBB124B,
     0x2D79AB2A39C5877D, 0x95CC3345DED552C2, 0x5A92F1DBA88AD318, 0x239900D4ED8623B9]"
    by (simp only: abc_compress)
  show ?thesis
    unfolding final_depends_on_core_pending[OF assms(5)] h abc_digest_bytes
    by (simp add: assms(4) memcpy_at_def)
qed

text \<open>
  Claim C2. The one-shot call with \<open>outlen = 64\<close>, the three bytes \<open>"abc"\<close> and no key
  returns 0 and leaves the digest \<open>ba80a53f...d4009923\<close> in the first 64 bytes of the output
  buffer (bytes of the buffer beyond the 64th are not touched).
\<close>

theorem blake2b_512_abc:
  "tinyblake_blake2b (Some obuf) 64 (Some [0x61, 0x62, 0x63]) 3 None 0 =
     (0, Some (
       [0xba, 0x80, 0xa5, 0x3f, 0x98, 0x1c, 0x4d, 0x0d, 0x6a, 0x27, 0x97, 0xb6, 0x9f, 0x12, 0xf6, 0xe9,
     0x4c, 0x21, 0x2f, 0x14, 0x68, 0x5a, 0xc4, 0xb7, 0x4b, 0x12, 0xbb, 0x6f, 0xdb, 0xff, 0xa2, 0xd1,
     0x7d, 0x87, 0xc5, 0x39, 0x2a, 0xab, 0x79, 0x2d, 0xc2, 0x52, 0xd5, 0xde, 0x45, 0x33, 0xcc, 0x95,
     0x18, 0xd3, 0x8a, 0xa8, 0xdb, 0xf1, 0x92, 0x5a, 0xb9, 0x23, 0x86, 0xed, 0xd4, 0x00, 0x99, 0x23]
       @ drop 64 obuf))"
proof -
  let ?S1 = "zero_state\<lparr>S_outlen := 64, S_h :=
       [0x6A09E667F2BDC948, 0xBB67AE8584CAA73B, 0x3C6EF372FE94F82B, 0xA54FF53A5F1D36F1,
     0x510E527FADE682D1, 0x9B05688C2B3E6C1F, 0x1F83D9ABFB41BD6B, 0x5BE0CD19137E2179]\<rparr>"
  let ?S2 = "?S1\<lparr>S_buf := memcpy_at (S_buf ?S1) 0 [0x61, 0x62, 0x63] 3, S_buflen := 3\<rparr>"
  have u: "tinyblake_blake2b_update ?S1 (Some [0x61, 0x62, 0x63]) 3 = (0, ?S2)"
    by (rule update_into_empty_buffer) simp_all
  have f: "tinyblake_blake2b_final ?S2 (Some obuf) 64 =
     (0, zero_state, Some (
       [0xba, 0x80, 0xa5, 0x3f, 0x98, 0x1c, 0x4d, 0x0d, 0x6a, 0x27, 0x97, 0xb6, 0x9f, 0x12, 0xf6, 0xe9,
     0x4c, 0x21, 0x2f, 0x14, 0x68, 0x5a, 0xc4, 0xb7, 0x4b, 0x12, 0xbb, 0x6f, 0xdb, 0xff, 0xa2, 0xd1,
     0x7d, 0x87, 0xc5, 0x39, 0x2a, 0xab, 0x79, 0x2d, 0xc2, 0x52, 0xd5, 0xde, 0x45, 0x33, 0xcc, 0x95,
     0x18, 0xd3, 0x8a, 0xa8, 0xdb, 0xf1, 0x92, 0x5a, 0xb9, 0x23, 0x86, 0xed, 0xd4, 0x00, 0x99, 0x23]
       @ drop 64 obuf))"
    by (rule abc_final) (simp_all add: boundary_def pending_def memcpy_at_def)
  show ?thesis
    by (simp only: tinyblake_blake2b_def abc_init u f prod.case if_False simp_thms less_irrefl)
qed

end
